theory Spec2Isabelle
  imports Main "HOL-Library.List_Lexorder" "HOL-Library.Multiset"
begin

section \<open>Strings and numbers as Python has them\<close>

text \<open>
  A Python string is a sequence of Unicode code points, compared lexicographically by
  code point. Object names are such strings (\<open>ustring\<close>); \<open>ascii\<close> reads an ASCII
  literal as one. \<open>f"{i}"\<close> for a non-negative integer is its decimal representation
  without leading zeros, in the ASCII digits.

  Two tables of the Python runtime lie outside the source and are parameters of the
  model, carried in the host state below: \<open>str.lower\<close> (the Unicode lower-casing of
  a string) and the value of a Unicode decimal digit (what \<open>\d\<close> matches and \<open>int\<close>
  reads). \<open>ascii_lower\<close> and \<open>ascii_decimal\<close> are what they do on ASCII, and the
  tables of the example states.
\<close>

type_synonym ustring = "nat list"

definition ascii :: "string \<Rightarrow> ustring" where
  "ascii s = map of_char s"

definition digit_char :: "nat \<Rightarrow> nat" where
  "digit_char d = 48 + d"

fun str_nat :: "nat \<Rightarrow> ustring" where
  "str_nat n = (if n < 10 then [digit_char n] else str_nat (n div 10) @ [digit_char (n mod 10)])"

declare str_nat.simps [simp del]

definition ascii_lower :: "ustring \<Rightarrow> ustring" where
  "ascii_lower s = map (\<lambda>c. if 65 \<le> c \<and> c \<le> 90 then c + 32 else c) s"

definition ascii_decimal :: "nat \<Rightarrow> nat option" where
  "ascii_decimal c = (if 48 \<le> c \<and> c \<le> 57 then Some (c - 48) else None)"

section \<open>The host's data model\<close>

text \<open>
  The add-on works on data owned by the host application. An object reference is the
  object's slot in \<open>bpy.data.objects\<close>, which also serves as its identity \<open>id(obj)\<close>;
  no function of the add-on creates or deletes objects. A collection reference is
  either the root collection of a scene (which is not listed in
  \<open>bpy.data.collections\<close>) or a slot of \<open>bpy.data.collections\<close>. Collection membership
  is kept on the object, as \<open>obj.users_collection\<close>.
\<close>

datatype exn = RuntimeError | ValueError | OSError string | AttributeError

type_synonym obj_ref = nat

datatype coll_ref = Master nat | Coll nat

record object =
  otype :: string
  oname :: ustring
  users_collection :: "coll_ref list"

record collection =
  cname :: string
  children :: "coll_ref list"

record scene =
  collector_enable_auto :: "bool option"
  scene_collection :: coll_ref
  root_children :: "coll_ref list"
  camera :: "obj_ref option"

text \<open>
  The host state also holds the two module globals of the add-on, the two handler
  lists, and the calls the host refuses: \<open>link_raises h c p\<close> says that
  \<open>c.objects.link(p)\<close> raises \<open>RuntimeError\<close>, likewise for \<open>unlink\<close> and for
  linking a child collection; \<open>name_raises h p\<close> says that object \<open>p\<close> is read-only
  (linked from a library), so that assigning its name raises \<open>AttributeError\<close>.
  \<open>str_lower\<close> and \<open>decimal_digit\<close> are the two tables of the Python runtime.
\<close>

record host =
  data_objects :: "object list"
  data_collections :: "collection list"
  TRACKED_OBJECT_IDS :: "obj_ref set"
  HANDLERS_REGISTERED :: bool
  load_post :: "string list"
  depsgraph_update_post :: "string list"
  link_raises :: "coll_ref \<Rightarrow> obj_ref \<Rightarrow> bool"
  unlink_raises :: "coll_ref \<Rightarrow> obj_ref \<Rightarrow> bool"
  children_link_raises :: "coll_ref \<Rightarrow> coll_ref \<Rightarrow> bool"
  name_raises :: "obj_ref \<Rightarrow> bool"
  str_lower :: "ustring \<Rightarrow> ustring"
  decimal_digit :: "nat \<Rightarrow> nat option"

definition bind_exn :: "exn + 'a \<Rightarrow> ('a \<Rightarrow> exn + 'b) \<Rightarrow> exn + 'b" where
  "bind_exn r f = (case r of Inl e \<Rightarrow> Inl e | Inr x \<Rightarrow> f x)"

text \<open>\<open>try: ... except RuntimeError: pass\<close>: any other exception propagates.\<close>

definition except_RuntimeError_pass :: "exn + 'a \<Rightarrow> 'a \<Rightarrow> exn + 'a" where
  "except_RuntimeError_pass r unchanged =
     (case r of
        Inl e \<Rightarrow> if e = RuntimeError then Inr unchanged else Inl e
      | Inr x \<Rightarrow> Inr x)"

subsection \<open>Host calls\<close>

definition set_users :: "obj_ref \<Rightarrow> coll_ref list \<Rightarrow> host \<Rightarrow> host" where
  "set_users p cs h =
     h\<lparr>data_objects := (data_objects h)[p := (data_objects h ! p)\<lparr>users_collection := cs\<rparr>]\<rparr>"

definition users_of :: "host \<Rightarrow> obj_ref \<Rightarrow> coll_ref list" where
  "users_of h p = (if p < length (data_objects h) then users_collection (data_objects h ! p) else [])"

definition objects_link :: "coll_ref \<Rightarrow> obj_ref \<Rightarrow> host \<Rightarrow> exn + host" where
  "objects_link c p h =
     (if link_raises h c p then Inl RuntimeError
      else Inr (set_users p (users_of h p @ [c]) h))"

definition objects_unlink :: "coll_ref \<Rightarrow> obj_ref \<Rightarrow> host \<Rightarrow> exn + host" where
  "objects_unlink c p h =
     (if unlink_raises h c p then Inl RuntimeError
      else Inr (set_users p (removeAll c (users_of h p)) h))"

definition children_link :: "coll_ref \<Rightarrow> scene \<Rightarrow> host \<Rightarrow> exn + scene" where
  "children_link c sc h =
     (if children_link_raises h (scene_collection sc) c then Inl RuntimeError
      else Inr (sc\<lparr>root_children := root_children sc @ [c]\<rparr>))"

definition collections_get :: "string \<Rightarrow> host \<Rightarrow> coll_ref option" where
  "collections_get name h =
     map_option Coll
       (find (\<lambda>k. cname (data_collections h ! k) = name) [0..<length (data_collections h)])"

definition collections_new :: "string \<Rightarrow> host \<Rightarrow> coll_ref \<times> host" where
  "collections_new name h =
     (Coll (length (data_collections h)),
      h\<lparr>data_collections := data_collections h @ [\<lparr>cname = name, children = []\<rparr>]\<rparr>)"

fun coll_name :: "host \<Rightarrow> coll_ref \<Rightarrow> string option" where
  "coll_name h (Master n) = None"
| "coll_name h (Coll k) =
     (if k < length (data_collections h) then Some (cname (data_collections h ! k)) else None)"

definition children_keys :: "scene \<Rightarrow> host \<Rightarrow> string list" where
  "children_keys sc h = List.map_filter (coll_name h) (root_children sc)"

fun children_of :: "host \<Rightarrow> coll_ref \<Rightarrow> coll_ref list" where
  "children_of h (Master n) = []"
| "children_of h (Coll k) =
     (if k < length (data_collections h) then children (data_collections h ! k) else [])"

text \<open>
  \<open>scene.objects\<close> is every object linked to the scene's root collection or to a
  collection below it. A hierarchy of \<open>n\<close> collections has no path longer than \<open>n\<close>.
\<close>

fun children_recursive :: "nat \<Rightarrow> host \<Rightarrow> coll_ref list \<Rightarrow> coll_ref list" where
  "children_recursive 0 h cs = cs"
| "children_recursive (Suc n) h cs = cs @ children_recursive n h (concat (map (children_of h) cs))"

definition scene_collections :: "scene \<Rightarrow> host \<Rightarrow> coll_ref list" where
  "scene_collections sc h =
     scene_collection sc # children_recursive (length (data_collections h)) h (root_children sc)"

definition in_scene :: "scene \<Rightarrow> host \<Rightarrow> obj_ref \<Rightarrow> bool" where
  "in_scene sc h p = (\<exists>c \<in> set (users_of h p). c \<in> set (scene_collections sc h))"

definition scene_objects :: "scene \<Rightarrow> host \<Rightarrow> obj_ref list" where
  "scene_objects sc h = filter (in_scene sc h) [0..<length (data_objects h)]"

subsection \<open>Assigning a name\<close>

text \<open>
  \<open>obj.name = n\<close> is a call of the host's setter, not a plain write. The host keeps
  the names of \<open>bpy.data.objects\<close> unique: when another object holds \<open>n\<close>, it stores
  \<open>n\<close> extended by \<open>.001\<close>, \<open>.002\<close>, \<dots>, the first that no other object holds. (This
  is how the host extends a name that does not itself end in such a suffix, as the
  names the add-on assigns do not.) Among the first \<open>length + 1\<close> suffixes one is
  free, so the search is bounded. On a read-only object the setter raises
  \<open>AttributeError\<close>, which nothing in the add-on catches. The host's limit of 63
  bytes on a name is not modelled; the names assigned here stay far below it.

  An exception that leaves a function of the add-on is returned with the state it
  left behind: \<open>Inl (e, state)\<close>.
\<close>

definition name_held :: "host \<Rightarrow> obj_ref \<Rightarrow> ustring \<Rightarrow> bool" where
  "name_held h p n =
     (\<exists>q \<in> set [0..<length (data_objects h)]. q \<noteq> p \<and> oname (data_objects h ! q) = n)"

definition name_suffix :: "nat \<Rightarrow> ustring" where
  "name_suffix k = [46] @ replicate (3 - length (str_nat k)) 48 @ str_nat k"

definition unique_name :: "host \<Rightarrow> obj_ref \<Rightarrow> ustring \<Rightarrow> ustring" where
  "unique_name h p n =
     (if \<not> name_held h p n then n
      else (case find (\<lambda>k. \<not> name_held h p (n @ name_suffix k))
                   [1..<length (data_objects h) + 2] of
              Some k \<Rightarrow> n @ name_suffix k
            | None \<Rightarrow> n @ name_suffix (length (data_objects h) + 2)))"

definition store_name :: "obj_ref \<Rightarrow> ustring \<Rightarrow> host \<Rightarrow> host" where
  "store_name p n h =
     h\<lparr>data_objects := (data_objects h)[p := (data_objects h ! p)\<lparr>oname := n\<rparr>]\<rparr>"

definition set_name :: "obj_ref \<Rightarrow> ustring \<Rightarrow> host \<Rightarrow> (exn \<times> host) + host" where
  "set_name p n h =
     (if name_raises h p then Inl (AttributeError, h)
      else Inr (store_name p (unique_name h p n) h))"

section \<open>The add-on\<close>

definition TARGET_OBJECT_TYPES :: "string set" where
  "TARGET_OBJECT_TYPES = {''CAMERA'', ''LIGHT''}"

definition CAMERAS_COLLECTION_NAME :: string where
  "CAMERAS_COLLECTION_NAME = ''Cameras''"

definition LIGHTS_COLLECTION_NAME :: string where
  "LIGHTS_COLLECTION_NAME = ''Lights''"

definition is_auto_enabled :: "scene option \<Rightarrow> bool" where
  "is_auto_enabled scene =
     (case scene of
        None \<Rightarrow> False
      | Some sc \<Rightarrow> (case collector_enable_auto sc of None \<Rightarrow> False | Some b \<Rightarrow> b))"

definition find_or_create_collection ::
  "string \<Rightarrow> scene \<Rightarrow> host \<Rightarrow> exn + (coll_ref \<times> scene \<times> host)" where
  "find_or_create_collection name sc h =
     (let (collection, h1) =
            (case collections_get name h of
               None \<Rightarrow> collections_new name h
             | Some c \<Rightarrow> (c, h))
      in if coll_name h1 collection \<notin> Some ` set (children_keys sc h1) then
           bind_exn (except_RuntimeError_pass (children_link collection sc h1) sc)
             (\<lambda>sc1. Inr (collection, sc1, h1))
         else Inr (collection, sc, h1))"

fun unlink_others :: "obj_ref \<Rightarrow> coll_ref \<Rightarrow> coll_ref list \<Rightarrow> host \<Rightarrow> exn + host" where
  "unlink_others p target [] h = Inr h"
| "unlink_others p target (col # cols) h =
     (if col \<noteq> target then
        bind_exn (except_RuntimeError_pass (objects_unlink col p h) h)
          (unlink_others p target cols)
      else unlink_others p target cols h)"

definition move_object_exclusively_to_collection ::
  "obj_ref \<Rightarrow> coll_ref \<Rightarrow> host \<Rightarrow> exn + host" where
  "move_object_exclusively_to_collection p target h =
     bind_exn
       (if target \<notin> set (users_of h p) then
          except_RuntimeError_pass (objects_link target p h) h
        else Inr h)
       (\<lambda>h1. unlink_others p target (users_of h1 p) h1)"

definition type_name :: "string \<Rightarrow> ustring option" where
  "type_name obj_type =
     (if obj_type = ''CAMERA'' then Some (ascii ''Camera'')
      else if obj_type = ''LIGHT'' then Some (ascii ''Light'')
      else None)"

definition new_name :: "ustring \<Rightarrow> nat \<Rightarrow> ustring" where
  "new_name tn i = tn @ [32] @ str_nat i"

definition objects_of_type :: "string \<Rightarrow> host \<Rightarrow> obj_ref list" where
  "objects_of_type t h =
     filter (\<lambda>p. otype (data_objects h ! p) = t) [0..<length (data_objects h)]"

definition sort_by_lower_name :: "host \<Rightarrow> obj_ref list \<Rightarrow> obj_ref list" where
  "sort_by_lower_name h objs = sort_key (\<lambda>p. str_lower h (oname (data_objects h ! p))) objs"

fun rename_enumerate :: "ustring \<Rightarrow> nat \<Rightarrow> obj_ref list \<Rightarrow> host \<Rightarrow> (exn \<times> host) + host" where
  "rename_enumerate tn i [] h = Inr h"
| "rename_enumerate tn i (p # ps) h =
     (case set_name p (new_name tn i) h of
        Inl raised \<Rightarrow> Inl raised
      | Inr h1 \<Rightarrow> rename_enumerate tn (Suc i) ps h1)"

definition rename_objects_sequentially_of_type :: "string \<Rightarrow> host \<Rightarrow> (exn \<times> host) + host" where
  "rename_objects_sequentially_of_type obj_type h =
     (case type_name obj_type of
        None \<Rightarrow> Inr h
      | Some tn \<Rightarrow>
          rename_enumerate tn 1 (sort_by_lower_name h (objects_of_type obj_type h)) h)"

fun move_each :: "coll_ref \<Rightarrow> coll_ref \<Rightarrow> obj_ref list \<Rightarrow> host \<Rightarrow> exn + host" where
  "move_each cameras_col lights_col [] h = Inr h"
| "move_each cameras_col lights_col (p # ps) h =
     bind_exn
       (if otype (data_objects h ! p) = ''CAMERA'' then
          move_object_exclusively_to_collection p cameras_col h
        else if otype (data_objects h ! p) = ''LIGHT'' then
          move_object_exclusively_to_collection p lights_col h
        else Inr h)
       (move_each cameras_col lights_col ps)"

text \<open>
  \<open>find_or_create_collection\<close> and the moves catch the only exception the host calls
  in them raise; the branches that pass another one on are kept for the shape of the
  code and carry the state before the call.
\<close>

definition organize_scene_objects ::
  "scene \<Rightarrow> host \<Rightarrow> (exn \<times> scene \<times> host) + (scene \<times> host)" where
  "organize_scene_objects sc h =
     (case find_or_create_collection CAMERAS_COLLECTION_NAME sc h of
        Inl e \<Rightarrow> Inl (e, sc, h)
      | Inr (cameras_col, sc1, h1) \<Rightarrow>
     (case find_or_create_collection LIGHTS_COLLECTION_NAME sc1 h1 of
        Inl e \<Rightarrow> Inl (e, sc1, h1)
      | Inr (lights_col, sc2, h2) \<Rightarrow>
     (case rename_objects_sequentially_of_type ''CAMERA'' h2 of
        Inl (e, h3) \<Rightarrow> Inl (e, sc2, h3)
      | Inr h3 \<Rightarrow>
     (case rename_objects_sequentially_of_type ''LIGHT'' h3 of
        Inl (e, h4) \<Rightarrow> Inl (e, sc2, h4)
      | Inr h4 \<Rightarrow>
     (case move_each cameras_col lights_col (scene_objects sc2 h4) h4 of
        Inl e \<Rightarrow> Inl (e, sc2, h4)
      | Inr h5 \<Rightarrow> Inr (sc2, h5))))))"

definition rebuild_tracked_ids :: "scene \<Rightarrow> host \<Rightarrow> host" where
  "rebuild_tracked_ids sc h =
     h\<lparr>TRACKED_OBJECT_IDS :=
          set (filter (\<lambda>p. otype (data_objects h ! p) \<in> TARGET_OBJECT_TYPES) (scene_objects sc h))\<rparr>"

text \<open>
  \<open>re.compile(rf"^{type_name} (\d+)$").match(name)\<close>, returning group 1. The run of
  digits is greedy, and \<open>$\<close> matches at the end of the string or just before a
  newline that ends it. \<open>\d\<close> matches the code points that are decimal digits in the
  runtime's table, and \<open>int\<close> reads their values. Since Python 3.10.7 \<open>int\<close> raises
  \<open>ValueError\<close> when the run has more than 4300 digits (leading zeros included);
  \<open>None\<close> stands for that exception, which the code catches.
\<close>

definition is_digit :: "host \<Rightarrow> nat \<Rightarrow> bool" where
  "is_digit h c = (decimal_digit h c \<noteq> None)"

definition digit_val :: "host \<Rightarrow> nat \<Rightarrow> nat" where
  "digit_val h c = (case decimal_digit h c of None \<Rightarrow> 0 | Some d \<Rightarrow> d)"

definition int_max_str_digits :: nat where
  "int_max_str_digits = 4300"

definition py_int :: "host \<Rightarrow> ustring \<Rightarrow> nat option" where
  "py_int h ds =
     (if length ds > int_max_str_digits then None
      else Some (foldl (\<lambda>a c. 10 * a + digit_val h c) 0 ds))"

definition pattern_match :: "host \<Rightarrow> ustring \<Rightarrow> ustring \<Rightarrow> ustring option" where
  "pattern_match h tn name =
     (let prefix = tn @ [32] in
      if take (length prefix) name = prefix then
        (let rest = drop (length prefix) name;
             ds = takeWhile (is_digit h) rest;
             tail = dropWhile (is_digit h) rest
         in if ds \<noteq> [] \<and> (tail = [] \<or> tail = [10]) then Some ds else None)
      else None)"

text \<open>The set \<open>numbers\<close> is kept as a list; only membership in it is read.\<close>

fun scan_numbers :: "host \<Rightarrow> ustring \<Rightarrow> string \<Rightarrow> object list \<Rightarrow> nat list \<Rightarrow> nat list" where
  "scan_numbers h tn t [] numbers = numbers"
| "scan_numbers h tn t (ob # obs) numbers =
     scan_numbers h tn t obs
       (if otype ob = t then
          (case pattern_match h tn (oname ob) of
             None \<Rightarrow> numbers
           | Some ds \<Rightarrow> (case py_int h ds of None \<Rightarrow> numbers | Some n \<Rightarrow> n # numbers))
        else numbers)"

function first_free :: "nat \<Rightarrow> nat list \<Rightarrow> nat" where
  "first_free new_number numbers =
     (if new_number \<in> set numbers then first_free (new_number + 1) numbers else new_number)"
  by pat_completeness auto
termination
proof (relation "measure (\<lambda>(n, numbers). Suc (Max (set numbers)) - n)")
  show "wf (measure (\<lambda>(n, numbers). Suc (Max (set numbers)) - n))"
    by simp
next
  fix new_number :: nat and numbers :: "nat list"
  assume "new_number \<in> set numbers"
  then have "new_number \<le> Max (set numbers)"
    by simp
  then show "((new_number + 1, numbers), (new_number, numbers))
      \<in> measure (\<lambda>(n, numbers). Suc (Max (set numbers)) - n)"
    by simp
qed

declare first_free.simps [simp del]

definition rename_object_sequentially :: "obj_ref \<Rightarrow> host \<Rightarrow> (exn \<times> host) + host" where
  "rename_object_sequentially p h =
     (let t = otype (data_objects h ! p) in
      case type_name t of
        None \<Rightarrow> Inr h
      | Some tn \<Rightarrow>
          (let numbers = scan_numbers h tn t (data_objects h) [];
               new_number = first_free 1 numbers
           in set_name p (new_name tn new_number) h))"

fun organize_each ::
  "coll_ref \<Rightarrow> coll_ref \<Rightarrow> obj_ref list \<Rightarrow> host \<Rightarrow> (exn \<times> host) + host" where
  "organize_each cameras_col lights_col [] h = Inr h"
| "organize_each cameras_col lights_col (p # ps) h =
     (case rename_object_sequentially p h of
        Inl raised \<Rightarrow> Inl raised
      | Inr h1 \<Rightarrow>
          (case (if otype (data_objects h1 ! p) = ''CAMERA'' then
                   move_object_exclusively_to_collection p cameras_col h1
                 else if otype (data_objects h1 ! p) = ''LIGHT'' then
                   move_object_exclusively_to_collection p lights_col h1
                 else Inr h1) of
             Inl e \<Rightarrow> Inl (e, h1)
           | Inr h2 \<Rightarrow> organize_each cameras_col lights_col ps h2))"

definition new_objects :: "scene \<Rightarrow> host \<Rightarrow> obj_ref list" where
  "new_objects sc h =
     filter (\<lambda>p. otype (data_objects h ! p) \<in> TARGET_OBJECT_TYPES \<and> p \<notin> TRACKED_OBJECT_IDS h)
       (scene_objects sc h)"

definition organize_new_objects ::
  "scene \<Rightarrow> host \<Rightarrow> (exn \<times> scene \<times> host) + (scene \<times> host)" where
  "organize_new_objects sc h =
     (case find_or_create_collection CAMERAS_COLLECTION_NAME sc h of
        Inl e \<Rightarrow> Inl (e, sc, h)
      | Inr (cameras_col, sc1, h1) \<Rightarrow>
     (case find_or_create_collection LIGHTS_COLLECTION_NAME sc1 h1 of
        Inl e \<Rightarrow> Inl (e, sc1, h1)
      | Inr (lights_col, sc2, h2) \<Rightarrow>
     (case organize_each cameras_col lights_col (new_objects sc2 h2) h2 of
        Inl (e, h3) \<Rightarrow> Inl (e, sc2, h3)
      | Inr h3 \<Rightarrow> Inr (sc2, rebuild_tracked_ids sc2 h3))))"

subsection \<open>The notification handlers\<close>

definition ensure_handlers_registered :: "host \<Rightarrow> host" where
  "ensure_handlers_registered h =
     (if HANDLERS_REGISTERED h then h
      else h\<lparr>load_post :=
                (if ''handle_load_post'' \<notin> set (load_post h)
                 then load_post h @ [''handle_load_post''] else load_post h),
              depsgraph_update_post :=
                (if ''handle_depsgraph_update'' \<notin> set (depsgraph_update_post h)
                 then depsgraph_update_post h @ [''handle_depsgraph_update'']
                 else depsgraph_update_post h),
              HANDLERS_REGISTERED := True\<rparr>)"

text \<open>
  Both handlers read \<open>bpy.context.scene\<close>, which may be absent; it is their first
  argument here, and they return it with the host state.
\<close>

definition handle_load_post ::
  "scene option \<Rightarrow> host \<Rightarrow> (exn \<times> scene option \<times> host) + (scene option \<times> host)" where
  "handle_load_post scene h =
     (case scene of
        None \<Rightarrow> Inr (scene, h)
      | Some sc \<Rightarrow>
          if is_auto_enabled scene then
            (case organize_scene_objects sc (ensure_handlers_registered h) of
               Inl (e, sc1, h1) \<Rightarrow> Inl (e, Some sc1, h1)
             | Inr (sc1, h1) \<Rightarrow> Inr (Some sc1, rebuild_tracked_ids sc1 h1))
          else Inr (scene, h))"

definition handle_depsgraph_update ::
  "scene option \<Rightarrow> host \<Rightarrow> (exn \<times> scene option \<times> host) + (scene option \<times> host)" where
  "handle_depsgraph_update scene h =
     (case scene of
        None \<Rightarrow> Inr (scene, h)
      | Some sc \<Rightarrow>
          if \<not> is_auto_enabled scene then Inr (scene, h)
          else (case organize_new_objects sc h of
                  Inl (e, sc1, h1) \<Rightarrow> Inl (e, Some sc1, h1)
                | Inr (sc1, h1) \<Rightarrow> Inr (Some sc1, h1)))"

subsection \<open>The operators\<close>

datatype status = FINISHED | CANCELLED

text \<open>
  What the export operator reads from its environment: the host's temporary
  directory, the formatted time stamp, and the exception (if any) that opening or
  writing a path raises. \<open>files\<close> are the files written so far.
\<close>

record os_env =
  tempdir :: string
  timestamp :: string
  write_raises :: "string \<Rightarrow> exn option"
  files :: "(string \<times> ustring) list"

fun str_exn :: "exn \<Rightarrow> string" where
  "str_exn (OSError msg) = msg"
| "str_exn RuntimeError = []"
| "str_exn ValueError = []"
| "str_exn AttributeError = []"

fun join :: "'a list \<Rightarrow> 'a list list \<Rightarrow> 'a list" where
  "join sep [] = []"
| "join sep [x] = x"
| "join sep (x # y # ys) = x @ sep @ join sep (y # ys)"

definition path_join :: "string \<Rightarrow> string \<Rightarrow> string" where
  "path_join dir name =
     (if dir = [] \<or> last dir = CHR ''/'' then dir @ name else dir @ ''/'' @ name)"

definition collection_objects :: "host \<Rightarrow> coll_ref \<Rightarrow> obj_ref list" where
  "collection_objects h col = filter (\<lambda>p. col \<in> set (users_of h p)) [0..<length (data_objects h)]"

definition write_collection_report :: "string \<Rightarrow> host \<Rightarrow> ustring list \<Rightarrow> ustring list" where
  "write_collection_report col_name h report_lines =
     (case collections_get col_name h of
        None \<Rightarrow>
          report_lines @
          [ascii ''Collection '' @ [39] @ ascii col_name @ [39] @ ascii '' not found.'' @ [10]]
      | Some col \<Rightarrow>
          report_lines @
          [ascii ''Collection '' @ [39] @ ascii col_name @ [39] @ ascii '':''] @
          map (\<lambda>p. ascii ''  - '' @ oname (data_objects h ! p) @ ascii '' (Type: '' @
                    ascii (otype (data_objects h ! p)) @ ascii '')'')
            (collection_objects h col) @
          [[]])"

definition report_filepath :: "os_env \<Rightarrow> string" where
  "report_filepath env = path_join (tempdir env) (''collector_report_'' @ timestamp env @ ''.txt'')"

definition collector_export_report_execute ::
  "os_env \<Rightarrow> host \<Rightarrow> status \<times> (string \<times> string) list \<times> os_env" where
  "collector_export_report_execute env h =
     (let report_lines =
            write_collection_report LIGHTS_COLLECTION_NAME h
              (write_collection_report CAMERAS_COLLECTION_NAME h []);
          filepath = report_filepath env
      in case write_raises env filepath of
           None \<Rightarrow>
             (FINISHED,
              [(''INFO'', ''Collector report saved to: '' @ filepath)],
              env\<lparr>files := (filepath, join [10] report_lines) # files env\<rparr>)
         | Some e \<Rightarrow>
             (CANCELLED, [(''ERROR'', ''Failed to write report: '' @ str_exn e)], env))"

text \<open>
  The 3D views of the window the set-active-camera operator runs in. For each area the
  host fixes what \<open>bpy.ops.view3d.object_as_camera()\<close> does under the context
  override: it finishes, it is cancelled, it raises, or the override itself raises.
  A space without \<open>region_3d\<close> has \<open>None\<close> there, otherwise its view perspective.
\<close>

datatype op_outcome = OpFinished | OpCancelled | OpRaises | OverrideRaises

record space =
  space_type :: string
  region_3d :: "string option"

record area =
  area_type :: string
  regions :: "string list"
  spaces :: "space list"
  object_as_camera :: op_outcome

fun set_first_view_perspective :: "space list \<Rightarrow> space list" where
  "set_first_view_perspective [] = []"
| "set_first_view_perspective (s # ss) =
     (if space_type s = ''VIEW_3D'' then s\<lparr>region_3d := Some ''CAMERA''\<rparr> # ss
      else s # set_first_view_perspective ss)"

fun switch_view :: "area list \<Rightarrow> bool \<times> area list" where
  "switch_view [] = (False, [])"
| "switch_view (a # as) =
     (let skip = (let (switched, as') = switch_view as in (switched, a # as')) in
      if area_type a = ''VIEW_3D'' then
        (let region = find (\<lambda>r. r = ''WINDOW'') (regions a);
             space = find (\<lambda>s. space_type s = ''VIEW_3D'') (spaces a);
             override = (region \<noteq> None \<and> space \<noteq> None)
         in if override \<and> object_as_camera a = OverrideRaises then (False, a # as)
            else if override \<and> object_as_camera a = OpFinished then (True, a # as)
            else (case space of
                    None \<Rightarrow> skip
                  | Some s \<Rightarrow>
                      if region_3d s \<noteq> None then
                        (True, a\<lparr>spaces := set_first_view_perspective (spaces a)\<rparr> # as)
                      else skip))
      else skip)"

record op_context =
  context_scene :: scene
  context_object :: "obj_ref option"
  context_window :: "area list option"

definition collector_set_active_camera_execute ::
  "op_context \<Rightarrow> host \<Rightarrow> status \<times> (string \<times> ustring) list \<times> op_context" where
  "collector_set_active_camera_execute ctx h =
     (case context_object ctx of
        None \<Rightarrow> (CANCELLED, [(''WARNING'', ascii ''Select a camera object first'')], ctx)
      | Some p \<Rightarrow>
          if otype (data_objects h ! p) \<noteq> ''CAMERA'' then
            (CANCELLED, [(''WARNING'', ascii ''Select a camera object first'')], ctx)
          else
            (let scene1 = (context_scene ctx)\<lparr>camera := Some p\<rparr>;
                 window1 = (case context_window ctx of
                              None \<Rightarrow> None
                            | Some areas \<Rightarrow> Some (snd (switch_view areas)))
             in (FINISHED,
                 [(''INFO'', ascii ''Active camera set to: '' @ oname (data_objects h ! p))],
                 ctx\<lparr>context_scene := scene1, context_window := window1\<rparr>)))"

section \<open>Example states\<close>

definition demo_scene :: scene where
  "demo_scene =
     \<lparr>collector_enable_auto = Some True, scene_collection = Master 0,
      root_children = [Coll 0], camera = None\<rparr>"

definition demo_host :: host where
  "demo_host =
     \<lparr>data_objects =
        [\<lparr>otype = ''CAMERA'', oname = ascii ''Zoom'', users_collection = [Coll 0]\<rparr>,
         \<lparr>otype = ''LIGHT'', oname = ascii ''Key'', users_collection = [Master 0]\<rparr>,
         \<lparr>otype = ''CAMERA'', oname = ascii ''alpha'', users_collection = [Coll 0, Master 0]\<rparr>,
         \<lparr>otype = ''MESH'', oname = ascii ''Cube'', users_collection = [Coll 0]\<rparr>],
      data_collections = [\<lparr>cname = ''Collection'', children = []\<rparr>],
      TRACKED_OBJECT_IDS = {},
      HANDLERS_REGISTERED = True,
      load_post = [''handle_load_post''],
      depsgraph_update_post = [''handle_depsgraph_update''],
      link_raises = (\<lambda>c p. False),
      unlink_raises = (\<lambda>c p. False),
      children_link_raises = (\<lambda>c d. False),
      name_raises = (\<lambda>p. False),
      str_lower = ascii_lower,
      decimal_digit = ascii_decimal\<rparr>"

definition refusing_host :: host where
  "refusing_host =
     demo_host\<lparr>link_raises := (\<lambda>c p. True), unlink_raises := (\<lambda>c p. True),
       children_link_raises := (\<lambda>c d. True)\<rparr>"

definition full_disk_env :: os_env where
  "full_disk_env =
     \<lparr>tempdir = ''/tmp'', timestamp = ''20260101_120000'',
      write_raises = (\<lambda>path. Some (OSError ''disk full'')), files = []\<rparr>"
section \<open>Moving an object\<close>

lemma set_users_fields [simp]:
  "data_collections (set_users p cs h) = data_collections h"
  "TRACKED_OBJECT_IDS (set_users p cs h) = TRACKED_OBJECT_IDS h"
  "HANDLERS_REGISTERED (set_users p cs h) = HANDLERS_REGISTERED h"
  "load_post (set_users p cs h) = load_post h"
  "depsgraph_update_post (set_users p cs h) = depsgraph_update_post h"
  "link_raises (set_users p cs h) = link_raises h"
  "unlink_raises (set_users p cs h) = unlink_raises h"
  "children_link_raises (set_users p cs h) = children_link_raises h"
  "name_raises (set_users p cs h) = name_raises h"
  "str_lower (set_users p cs h) = str_lower h"
  "decimal_digit (set_users p cs h) = decimal_digit h"
  "length (data_objects (set_users p cs h)) = length (data_objects h)"
  by (simp_all add: set_users_def)

lemma set_users_nth:
  "q < length (data_objects h) \<Longrightarrow>
   data_objects (set_users p cs h) ! q =
     (if q = p then (data_objects h ! q)\<lparr>users_collection := cs\<rparr> else data_objects h ! q)"
  by (simp add: set_users_def nth_list_update)

lemma users_of_set_users:
  "users_of (set_users p cs h) q =
     (if q = p \<and> p < length (data_objects h) then cs else users_of h q)"
  by (simp add: users_of_def set_users_def nth_list_update)

lemma set_users_beyond:
  "\<not> p < length (data_objects h) \<Longrightarrow> set_users p cs h = h"
  by (simp add: set_users_def not_less list_update_beyond)

lemma set_users_twice [simp]:
  "set_users p cs (set_users p cs' h) = set_users p cs h"
  by (cases "p < length (data_objects h)") (simp_all add: set_users_def not_less list_update_beyond)

lemma set_users_same:
  "set_users p (users_of h p) h = h"
  by (cases "p < length (data_objects h)")
    (simp_all add: set_users_def users_of_def not_less list_update_beyond)

text \<open>
  The loop over \<open>list(obj.users_collection)\<close> leaves the object in the target and in
  the collections whose \<open>unlink\<close> the host refused.
\<close>

lemma unlink_others_eq:
  "unlink_others p target cols h =
     Inr (set_users p
            (filter (\<lambda>c. c = target \<or> c \<notin> set cols \<or> unlink_raises h c p) (users_of h p)) h)"
proof (induction cols arbitrary: h)
  case Nil
  then show ?case by (simp add: set_users_same)
next
  case (Cons col cols)
  show ?case
  proof (cases "p < length (data_objects h)")
    case False
    then show ?thesis
      using Cons.IH
      by (simp add: set_users_beyond users_of_def objects_unlink_def bind_exn_def
          except_RuntimeError_pass_def)
  next
    case True
    have *: "filter (\<lambda>c. c = target \<or> c \<notin> set cols \<or> unlink_raises h c p)
               (removeAll col (users_of h p)) =
             filter (\<lambda>c. c = target \<or> c \<noteq> col \<and> c \<notin> set cols \<or> unlink_raises h c p)
               (users_of h p)" if "col \<noteq> target" "\<not> unlink_raises h col p"
      using that by (auto simp: removeAll_filter_not_eq intro!: filter_cong)
    have **: "filter (\<lambda>c. c = target \<or> c \<notin> set cols \<or> unlink_raises h c p) us =
             filter (\<lambda>c. c = target \<or> c \<noteq> col \<and> c \<notin> set cols \<or> unlink_raises h c p) us"
      if "col = target \<or> unlink_raises h col p" for us
      using that by (auto intro!: filter_cong)
    show ?thesis
      using True Cons.IH * **
      by (auto simp: objects_unlink_def bind_exn_def except_RuntimeError_pass_def
          users_of_set_users)
  qed
qed

definition moved_users :: "host \<Rightarrow> obj_ref \<Rightarrow> coll_ref \<Rightarrow> coll_ref list" where
  "moved_users h p target =
     filter (\<lambda>c. c = target \<or> unlink_raises h c p)
       (if target \<in> set (users_of h p) \<or> link_raises h target p then users_of h p
        else users_of h p @ [target])"

lemma move_object_eq:
  "move_object_exclusively_to_collection p target h = Inr (set_users p (moved_users h p target) h)"
proof (cases "p < length (data_objects h)")
  case False
  then show ?thesis
    by (simp add: move_object_exclusively_to_collection_def objects_link_def bind_exn_def
        except_RuntimeError_pass_def unlink_others_eq set_users_beyond users_of_def)
next
  case True
  have "filter (\<lambda>c. c = target \<or> c \<notin> set us \<or> unlink_raises h c p) us =
        filter (\<lambda>c. c = target \<or> unlink_raises h c p) us" for us
    by (auto intro!: filter_cong)
  then show ?thesis
    using True
    by (simp add: move_object_exclusively_to_collection_def objects_link_def bind_exn_def
        except_RuntimeError_pass_def unlink_others_eq users_of_set_users moved_users_def)
qed

lemma find_or_create_collection_returns:
  "\<exists>r. find_or_create_collection name sc h = Inr r"
  by (simp add: find_or_create_collection_def children_link_def bind_exn_def
      except_RuntimeError_pass_def Let_def split: prod.splits option.splits)

text \<open>
  C5. After \<open>move_object_exclusively_to_collection\<close> the object is linked to the target
  collection and to no other collection, provided the host refuses none of the
  object's link and unlink calls. Nothing else about the objects changes.
\<close>

theorem move_object_exclusively:
  assumes "p < length (data_objects h)"
    and "\<forall>c. \<not> link_raises h c p \<and> \<not> unlink_raises h c p"
  shows "\<exists>h'. move_object_exclusively_to_collection p target h = Inr h' \<and>
           set (users_of h' p) = {target} \<and>
           data_objects h' = (data_objects h)
             [p := (data_objects h ! p)\<lparr>users_collection := users_of h' p\<rparr>]"
proof -
  have "set (moved_users h p target) = {target}"
    using assms by (auto simp: moved_users_def)
  then show ?thesis
    using assms by (simp add: move_object_eq users_of_set_users) (simp add: set_users_def)
qed

theorem move_object_exclusively_witness:
  "2 < length (data_objects demo_host) \<and>
   users_of demo_host 2 = [Coll 0, Master 0] \<and>
   (\<exists>h'. move_object_exclusively_to_collection 2 (Coll 5) demo_host = Inr h' \<and>
      set (users_of h' 2) = {Coll 5} \<and>
      data_objects h' = (data_objects demo_host)
        [2 := (data_objects demo_host ! 2)\<lparr>users_collection := users_of h' 2\<rparr>])"
  using move_object_exclusively [of 2 demo_host "Coll 5"]
  by (simp add: demo_host_def users_of_def)

text \<open>
  C6. A \<open>RuntimeError\<close> raised by a link or unlink call of the host never leaves
  \<open>find_or_create_collection\<close> or \<open>move_object_exclusively_to_collection\<close>: both
  return normally whatever the host refuses. When writing the report file raises,
  the export operator reports an \<open>ERROR\<close> carrying the exception's text, writes no
  file and returns \<open>CANCELLED\<close>; when it does not raise the operator returns
  \<open>FINISHED\<close>.
\<close>

theorem failures_swallowed_write_failure_reported:
  "(\<exists>r. find_or_create_collection name sc h = Inr r) \<and>
   (\<exists>h'. move_object_exclusively_to_collection p target h = Inr h') \<and>
   (write_raises env (report_filepath env) = Some e \<longrightarrow>
      collector_export_report_execute env h =
        (CANCELLED, [(''ERROR'', ''Failed to write report: '' @ str_exn e)], env)) \<and>
   (write_raises env (report_filepath env) = None \<longrightarrow>
      fst (collector_export_report_execute env h) = FINISHED)"
  using find_or_create_collection_returns [of name sc h]
  by (simp add: move_object_eq collector_export_report_execute_def Let_def)

theorem failures_swallowed_write_failure_reported_witness:
  "(\<exists>r. find_or_create_collection ''Cameras'' demo_scene refusing_host = Inr r) \<and>
   (\<exists>h'. move_object_exclusively_to_collection 0 (Coll 1) refusing_host = Inr h') \<and>
   write_raises full_disk_env (report_filepath full_disk_env) = Some (OSError ''disk full'') \<and>
   collector_export_report_execute full_disk_env refusing_host =
     (CANCELLED, [(''ERROR'', ''Failed to write report: disk full'')], full_disk_env) \<and>
   write_raises (full_disk_env\<lparr>write_raises := (\<lambda>path. None)\<rparr>)
     (report_filepath (full_disk_env\<lparr>write_raises := (\<lambda>path. None)\<rparr>)) = None \<and>
   fst (collector_export_report_execute (full_disk_env\<lparr>write_raises := (\<lambda>path. None)\<rparr>)
          refusing_host) = FINISHED"
  using failures_swallowed_write_failure_reported
      [of "''Cameras''" demo_scene refusing_host 0 "Coll 1" full_disk_env "OSError ''disk full''"]
    failures_swallowed_write_failure_reported
      [of "''Cameras''" demo_scene refusing_host 0 "Coll 1"
          "full_disk_env\<lparr>write_raises := (\<lambda>path. None)\<rparr>" "OSError ''disk full''"]
  by (simp add: full_disk_env_def)

text \<open>
  C7. When the scene is absent or its auto-organize toggle is off, both notification
  handlers return the scene and the host state as they were: no object is renamed,
  no membership changes and no collection is created.
\<close>

theorem handlers_idle_when_disabled:
  "\<not> is_auto_enabled scene \<Longrightarrow>
     handle_load_post scene h = Inr (scene, h) \<and>
     handle_depsgraph_update scene h = Inr (scene, h)"
  by (cases scene) (simp_all add: handle_load_post_def handle_depsgraph_update_def)

theorem handlers_idle_when_disabled_witness:
  "\<not> is_auto_enabled (Some (demo_scene\<lparr>collector_enable_auto := Some False\<rparr>)) \<and>
   \<not> is_auto_enabled (Some (demo_scene\<lparr>collector_enable_auto := None\<rparr>)) \<and>
   \<not> is_auto_enabled None \<and>
   handle_load_post (Some (demo_scene\<lparr>collector_enable_auto := Some False\<rparr>)) demo_host =
     Inr (Some (demo_scene\<lparr>collector_enable_auto := Some False\<rparr>), demo_host) \<and>
   handle_depsgraph_update (Some (demo_scene\<lparr>collector_enable_auto := Some False\<rparr>)) demo_host =
     Inr (Some (demo_scene\<lparr>collector_enable_auto := Some False\<rparr>), demo_host) \<and>
   handle_load_post None demo_host = Inr (None, demo_host) \<and>
   handle_depsgraph_update None demo_host = Inr (None, demo_host)"
  using handlers_idle_when_disabled [of "Some (demo_scene\<lparr>collector_enable_auto := Some False\<rparr>)" demo_host]
    handlers_idle_when_disabled [of None demo_host]
  by (simp add: is_auto_enabled_def)

text \<open>
  C10. The set-active-camera operator returns \<open>CANCELLED\<close> and leaves the context
  (so the scene's active camera) as it was when the context object is absent or is
  not a camera. When the context object is a camera it makes that object the scene's
  active camera and returns \<open>FINISHED\<close>, whatever the window holds and whether or not a
  3D view was switched.
\<close>

theorem set_active_camera_execute:
  "(context_object ctx = None \<or>
      (\<exists>p. context_object ctx = Some p \<and> otype (data_objects h ! p) \<noteq> ''CAMERA'')
    \<longrightarrow> fst (collector_set_active_camera_execute ctx h) = CANCELLED \<and>
        snd (snd (collector_set_active_camera_execute ctx h)) = ctx) \<and>
   (context_object ctx = Some p \<and> otype (data_objects h ! p) = ''CAMERA''
    \<longrightarrow> fst (collector_set_active_camera_execute ctx h) = FINISHED \<and>
        camera (context_scene (snd (snd (collector_set_active_camera_execute ctx h)))) = Some p)"
  by (auto simp: collector_set_active_camera_execute_def Let_def split: option.splits)

theorem set_active_camera_execute_witness:
  "context_object \<lparr>context_scene = demo_scene, context_object = Some 3, context_window = None\<rparr>
     = Some 3 \<and>
   otype (data_objects demo_host ! 3) \<noteq> ''CAMERA'' \<and>
   fst (collector_set_active_camera_execute
     \<lparr>context_scene = demo_scene, context_object = Some 3, context_window = None\<rparr> demo_host)
     = CANCELLED \<and>
   snd (snd (collector_set_active_camera_execute
     \<lparr>context_scene = demo_scene, context_object = Some 3, context_window = None\<rparr> demo_host))
     = \<lparr>context_scene = demo_scene, context_object = Some 3, context_window = None\<rparr> \<and>
   otype (data_objects demo_host ! 2) = ''CAMERA'' \<and>
   fst (switch_view [\<lparr>area_type = ''VIEW_3D'', regions = [''WINDOW''],
          spaces = [\<lparr>space_type = ''VIEW_3D'', region_3d = None\<rparr>],
          object_as_camera = OpRaises\<rparr>]) = False \<and>
   fst (collector_set_active_camera_execute
     \<lparr>context_scene = demo_scene, context_object = Some 2,
      context_window = Some [\<lparr>area_type = ''VIEW_3D'', regions = [''WINDOW''],
          spaces = [\<lparr>space_type = ''VIEW_3D'', region_3d = None\<rparr>],
          object_as_camera = OpRaises\<rparr>]\<rparr> demo_host) = FINISHED \<and>
   camera (context_scene (snd (snd (collector_set_active_camera_execute
     \<lparr>context_scene = demo_scene, context_object = Some 2,
      context_window = Some [\<lparr>area_type = ''VIEW_3D'', regions = [''WINDOW''],
          spaces = [\<lparr>space_type = ''VIEW_3D'', region_3d = None\<rparr>],
          object_as_camera = OpRaises\<rparr>]\<rparr> demo_host)))) = Some 2"
  using set_active_camera_execute
      [of "\<lparr>context_scene = demo_scene, context_object = Some 3, context_window = None\<rparr>"
          demo_host 3]
    set_active_camera_execute
      [of "\<lparr>context_scene = demo_scene, context_object = Some 2,
      context_window = Some [\<lparr>area_type = ''VIEW_3D'', regions = [''WINDOW''],
          spaces = [\<lparr>space_type = ''VIEW_3D'', region_3d = None\<rparr>],
          object_as_camera = OpRaises\<rparr>]\<rparr>" demo_host 2]
  by (simp add: demo_host_def)


section \<open>The frame of the host calls\<close>

text \<open>The state an outcome leaves: the one returned, or the one at the raise.\<close>

definition final :: "(exn \<times> 's) + 's \<Rightarrow> 's" where
  "final r = (case r of Inl (e, s) \<Rightarrow> s | Inr s \<Rightarrow> s)"

lemma final_simps [simp]:
  "final (Inl (e, s)) = s"
  "final (Inr s) = s"
  by (simp_all add: final_def)

text \<open>\<open>only_objects h h'\<close>: the two states differ in the objects' records at most.\<close>

definition only_objects :: "host \<Rightarrow> host \<Rightarrow> bool" where
  "only_objects h h' \<longleftrightarrow>
     h' = h\<lparr>data_objects := data_objects h'\<rparr> \<and>
     length (data_objects h') = length (data_objects h)"

lemma only_objects_refl [simp]:
  "only_objects h h"
  by (simp add: only_objects_def)

lemma only_objects_fields:
  assumes "only_objects h h'"
  shows "data_collections h' = data_collections h"
    and "TRACKED_OBJECT_IDS h' = TRACKED_OBJECT_IDS h"
    and "HANDLERS_REGISTERED h' = HANDLERS_REGISTERED h"
    and "load_post h' = load_post h"
    and "depsgraph_update_post h' = depsgraph_update_post h"
    and "link_raises h' = link_raises h"
    and "unlink_raises h' = unlink_raises h"
    and "children_link_raises h' = children_link_raises h"
    and "name_raises h' = name_raises h"
    and "str_lower h' = str_lower h"
    and "decimal_digit h' = decimal_digit h"
    and "length (data_objects h') = length (data_objects h)"
proof -
  from assms have e: "h' = h\<lparr>data_objects := data_objects h'\<rparr>"
    and l: "length (data_objects h') = length (data_objects h)"
    by (simp_all add: only_objects_def)
  show "data_collections h' = data_collections h"
    using arg_cong [OF e, of data_collections] by simp
  show "TRACKED_OBJECT_IDS h' = TRACKED_OBJECT_IDS h"
    using arg_cong [OF e, of TRACKED_OBJECT_IDS] by simp
  show "HANDLERS_REGISTERED h' = HANDLERS_REGISTERED h"
    using arg_cong [OF e, of HANDLERS_REGISTERED] by simp
  show "load_post h' = load_post h"
    using arg_cong [OF e, of load_post] by simp
  show "depsgraph_update_post h' = depsgraph_update_post h"
    using arg_cong [OF e, of depsgraph_update_post] by simp
  show "link_raises h' = link_raises h"
    using arg_cong [OF e, of link_raises] by simp
  show "unlink_raises h' = unlink_raises h"
    using arg_cong [OF e, of unlink_raises] by simp
  show "children_link_raises h' = children_link_raises h"
    using arg_cong [OF e, of children_link_raises] by simp
  show "name_raises h' = name_raises h"
    using arg_cong [OF e, of name_raises] by simp
  show "str_lower h' = str_lower h"
    using arg_cong [OF e, of str_lower] by simp
  show "decimal_digit h' = decimal_digit h"
    using arg_cong [OF e, of decimal_digit] by simp
  show "length (data_objects h') = length (data_objects h)"
    by (rule l)
qed

lemma only_objects_trans:
  assumes "only_objects h h1" and "only_objects h1 h2"
  shows "only_objects h h2"
proof -
  have "h2 = h1\<lparr>data_objects := data_objects h2\<rparr>" "h1 = h\<lparr>data_objects := data_objects h1\<rparr>"
    using assms by (simp_all add: only_objects_def)
  then have "h2 = h\<lparr>data_objects := data_objects h1\<rparr>\<lparr>data_objects := data_objects h2\<rparr>"
    by metis
  then have "h2 = h\<lparr>data_objects := data_objects h2\<rparr>"
    by simp
  then show ?thesis
    using assms by (simp add: only_objects_def)
qed

lemma only_objects_set_users [simp]:
  "only_objects h (set_users p cs h)"
  by (simp add: only_objects_def set_users_def)

lemma only_objects_store_name [simp]:
  "only_objects h (store_name p n h)"
  by (simp add: only_objects_def store_name_def)

lemma store_name_nth:
  "q < length (data_objects h) \<Longrightarrow>
   data_objects (store_name p n h) ! q =
     (if q = p then (data_objects h ! q)\<lparr>oname := n\<rparr> else data_objects h ! q)"
  by (simp add: store_name_def nth_list_update)

lemma store_name_other:
  "q \<noteq> p \<Longrightarrow> data_objects (store_name p n h) ! q = data_objects h ! q"
  by (simp add: store_name_def)

lemma users_of_store_name [simp]:
  "users_of (store_name p n h) q = users_of h q"
  by (cases "q = p") (simp_all add: users_of_def store_name_def nth_list_update)

lemma otype_store_name [simp]:
  "otype (data_objects (store_name p n h) ! q) = otype (data_objects h ! q)"
  by (cases "q < length (data_objects h)"; cases "q = p")
    (simp_all add: store_name_def not_less list_update_beyond)

lemma otype_set_users [simp]:
  "otype (data_objects (set_users p cs h) ! q) = otype (data_objects h ! q)"
  by (cases "q < length (data_objects h)"; cases "q = p")
    (simp_all add: set_users_def not_less list_update_beyond)

lemma oname_set_users [simp]:
  "oname (data_objects (set_users p cs h) ! q) = oname (data_objects h ! q)"
  by (cases "q < length (data_objects h)"; cases "q = p")
    (simp_all add: set_users_def not_less list_update_beyond)

text \<open>The two outcomes of a name assignment.\<close>

lemma set_name_cases:
  obtains (raised) "name_raises h p" "set_name p n h = Inl (AttributeError, h)"
  | (stored) "\<not> name_raises h p" "set_name p n h = Inr (store_name p (unique_name h p n) h)"
  by (cases "name_raises h p") (simp_all add: set_name_def)

lemma set_name_final:
  "only_objects h (final (set_name p n h))"
  "q \<noteq> p \<Longrightarrow> data_objects (final (set_name p n h)) ! q = data_objects h ! q"
  "otype (data_objects (final (set_name p n h)) ! q) = otype (data_objects h ! q)"
  "users_of (final (set_name p n h)) q = users_of h q"
  by (cases rule: set_name_cases [of h p n]; simp add: store_name_other)+

lemma rename_object_sequentially_final:
  "only_objects h (final (rename_object_sequentially p h))"
  "q \<noteq> p \<Longrightarrow> data_objects (final (rename_object_sequentially p h)) ! q = data_objects h ! q"
  "otype (data_objects (final (rename_object_sequentially p h)) ! q) = otype (data_objects h ! q)"
  "users_of (final (rename_object_sequentially p h)) q = users_of h q"
  by (simp_all add: rename_object_sequentially_def Let_def set_name_final split: option.splits)

lemma rename_object_sequentially_returns:
  "\<not> name_raises h p \<Longrightarrow> \<exists>h'. rename_object_sequentially p h = Inr h'"
  by (simp add: rename_object_sequentially_def Let_def set_name_def split: option.splits)

text \<open>What \<open>find_or_create_collection\<close> leaves alone.\<close>

lemma find_or_create_collection_frame:
  assumes "find_or_create_collection name sc h = Inr (c, sc', h')"
  shows "data_objects h' = data_objects h"
    and "TRACKED_OBJECT_IDS h' = TRACKED_OBJECT_IDS h"
    and "link_raises h' = link_raises h"
    and "unlink_raises h' = unlink_raises h"
    and "children_link_raises h' = children_link_raises h"
    and "name_raises h' = name_raises h"
    and "str_lower h' = str_lower h"
    and "decimal_digit h' = decimal_digit h"
    and "scene_collection sc' = scene_collection sc"
    and "collector_enable_auto sc' = collector_enable_auto sc"
    and "camera sc' = camera sc"
  using assms
  by (auto simp: find_or_create_collection_def collections_new_def children_link_def
      bind_exn_def except_RuntimeError_pass_def Let_def
      split: option.splits prod.splits if_splits)

text \<open>
  The loop over the new objects, on every path: it touches the records of the objects
  in its list only, and raises only when the host refuses a rename.
\<close>

lemma organize_each_final:
  "only_objects h (final (organize_each cameras_col lights_col ps h)) \<and>
   (\<forall>q. q \<notin> set ps \<longrightarrow>
      data_objects (final (organize_each cameras_col lights_col ps h)) ! q = data_objects h ! q) \<and>
   ((\<forall>p \<in> set ps. \<not> name_raises h p) \<longrightarrow>
      (\<exists>h'. organize_each cameras_col lights_col ps h = Inr h'))"
proof (induction ps arbitrary: h)
  case Nil
  then show ?case by simp
next
  case (Cons p ps)
  show ?case
  proof (cases "rename_object_sequentially p h")
    case (Inl raised)
    obtain e h1 where raised: "raised = (e, h1)"
      by (cases raised)
    have h1: "h1 = final (rename_object_sequentially p h)"
      by (simp add: Inl raised)
    have "\<not> (\<forall>p \<in> set (p # ps). \<not> name_raises h p)"
      using rename_object_sequentially_returns [of h p] Inl by auto
    then show ?thesis
      using rename_object_sequentially_final(1,2) [where p = p and h = h]
      by (simp add: Inl raised h1 [symmetric])
  next
    case (Inr h1)
    have h1: "h1 = final (rename_object_sequentially p h)"
      by (simp add: Inr)
    have o1: "only_objects h h1"
      and n1: "\<And>q. q \<noteq> p \<Longrightarrow> data_objects h1 ! q = data_objects h ! q"
      using rename_object_sequentially_final(1,2) [where p = p and h = h] by (simp_all add: h1)
    define h2 where "h2 =
      (if otype (data_objects h1 ! p) = ''CAMERA'' then set_users p (moved_users h1 p cameras_col) h1
       else if otype (data_objects h1 ! p) = ''LIGHT'' then set_users p (moved_users h1 p lights_col) h1
       else h1)"
    have step: "organize_each cameras_col lights_col (p # ps) h =
        organize_each cameras_col lights_col ps h2"
      by (simp add: Inr h2_def move_object_eq)
    have o2: "only_objects h h2"
      using o1 by (auto simp: h2_def intro: only_objects_trans)
    have n2: "data_objects h2 ! q = data_objects h ! q" if "q \<noteq> p" for q
      using that n1 [of q] by (simp add: h2_def set_users_def)
    have r2: "name_raises h2 = name_raises h"
      using only_objects_fields(9) [OF o2] .
    from Cons.IH [of h2] show ?thesis
      unfolding step using o2 n2 r2 by (auto intro: only_objects_trans)
  qed
qed

lemma children_recursive_cong:
  "data_collections h' = data_collections h \<Longrightarrow>
   children_recursive n h' cs = children_recursive n h cs"
proof (induction n arbitrary: cs)
  case 0
  then show ?case by simp
next
  case (Suc n)
  have "children_of h' c = children_of h c" for c
    using Suc.prems by (cases c) simp_all
  then have "children_of h' = children_of h"
    by (rule ext)
  then show ?case
    using Suc by simp
qed

lemma scene_collections_cong:
  "data_collections h' = data_collections h \<Longrightarrow> scene_collections sc h' = scene_collections sc h"
  using children_recursive_cong [of h' h] by (simp add: scene_collections_def)

lemma in_scene_cong:
  "data_collections h' = data_collections h \<Longrightarrow> users_of h' p = users_of h p \<Longrightarrow>
   in_scene sc h' p = in_scene sc h p"
  using scene_collections_cong [of h' h sc] by (simp add: in_scene_def)

lemma scene_objects_cong:
  assumes "data_collections h' = data_collections h"
    and "length (data_objects h') = length (data_objects h)"
    and "\<And>p. p < length (data_objects h) \<Longrightarrow> users_of h' p = users_of h p"
  shows "scene_objects sc h' = scene_objects sc h"
  unfolding scene_objects_def assms(2)
proof (rule filter_cong)
  fix p
  assume "p \<in> set [0..<length (data_objects h)]"
  then have "users_of h' p = users_of h p"
    using assms(3) by simp
  with assms(1) show "in_scene sc h' p = in_scene sc h p"
    by (rule in_scene_cong)
qed simp

lemma scene_objects_props:
  "distinct (scene_objects sc h)"
  "p \<in> set (scene_objects sc h) \<longleftrightarrow> p < length (data_objects h) \<and> in_scene sc h p"
  by (auto simp: scene_objects_def)

lemma scene_objects_TRACKED_update [simp]:
  "scene_objects sc (h\<lparr>TRACKED_OBJECT_IDS := ids\<rparr>) = scene_objects sc h"
  by (rule scene_objects_cong) (simp_all add: users_of_def)




text \<open>What \<open>organize_new_objects\<close> does, path by path.\<close>

lemma organize_new_objects_paths:
  obtains c1 sc1 h1 c2 sc2 h2 where
    "find_or_create_collection CAMERAS_COLLECTION_NAME sc h = Inr (c1, sc1, h1)"
    "find_or_create_collection LIGHTS_COLLECTION_NAME sc1 h1 = Inr (c2, sc2, h2)"
    "organize_new_objects sc h =
       (case organize_each c1 c2 (new_objects sc2 h2) h2 of
          Inl (e, h3) \<Rightarrow> Inl (e, sc2, h3)
        | Inr h3 \<Rightarrow> Inr (sc2, rebuild_tracked_ids sc2 h3))"
proof -
  obtain c1 sc1 h1 where f1: "find_or_create_collection CAMERAS_COLLECTION_NAME sc h = Inr (c1, sc1, h1)"
    using find_or_create_collection_returns [of CAMERAS_COLLECTION_NAME sc h] by auto
  obtain c2 sc2 h2 where f2: "find_or_create_collection LIGHTS_COLLECTION_NAME sc1 h1 = Inr (c2, sc2, h2)"
    using find_or_create_collection_returns [of LIGHTS_COLLECTION_NAME sc1 h1] by auto
  show ?thesis
    by (rule that [OF f1 f2]) (simp add: organize_new_objects_def f1 f2)
qed

section \<open>The cache of seen objects\<close>

text \<open>The exception an outcome carries, if any.\<close>

definition raised :: "(exn \<times> 's) + 's \<Rightarrow> exn option" where
  "raised r = (case r of Inl (e, s) \<Rightarrow> Some e | Inr s \<Rightarrow> None)"









section \<open>New objects only\<close>

text \<open>
  C9. \<open>organize_new_objects\<close> keeps the number of objects and leaves every object whose
  identity is in \<open>TRACKED_OBJECT_IDS\<close> as it was, its name, its type and its collection
  memberships, in the state the call leaves, whether it returns or raises; and it
  returns whenever the host refuses no rename.
\<close>

theorem organize_new_objects_keeps_tracked:
  "length (data_objects (snd (final (organize_new_objects sc h)))) = length (data_objects h) \<and>
   (\<forall>q \<in> TRACKED_OBJECT_IDS h.
      data_objects (snd (final (organize_new_objects sc h))) ! q = data_objects h ! q) \<and>
   ((\<forall>p. \<not> name_raises h p) \<longrightarrow> (\<exists>sc' h'. organize_new_objects sc h = Inr (sc', h')))"
proof -
  obtain c1 sc1 h1 c2 sc2 h2 where
    f1: "find_or_create_collection CAMERAS_COLLECTION_NAME sc h = Inr (c1, sc1, h1)"
    and f2: "find_or_create_collection LIGHTS_COLLECTION_NAME sc1 h1 = Inr (c2, sc2, h2)"
    and run: "organize_new_objects sc h =
       (case organize_each c1 c2 (new_objects sc2 h2) h2 of
          Inl (e, h3) \<Rightarrow> Inl (e, sc2, h3)
        | Inr h3 \<Rightarrow> Inr (sc2, rebuild_tracked_ids sc2 h3))"
    by (rule organize_new_objects_paths)
  define h3 where "h3 = final (organize_each c1 c2 (new_objects sc2 h2) h2)"
  have objs: "data_objects h2 = data_objects h" and ids: "TRACKED_OBJECT_IDS h2 = TRACKED_OBJECT_IDS h"
    and nr: "name_raises h2 = name_raises h"
    using find_or_create_collection_frame [OF f1] find_or_create_collection_frame [OF f2]
    by simp_all
  have each: "only_objects h2 h3"
    and other: "\<forall>q. q \<notin> set (new_objects sc2 h2) \<longrightarrow> data_objects h3 ! q = data_objects h2 ! q"
    and ret: "(\<forall>p \<in> set (new_objects sc2 h2). \<not> name_raises h2 p) \<longrightarrow>
      (\<exists>h'. organize_each c1 c2 (new_objects sc2 h2) h2 = Inr h')"
    using organize_each_final [of h2 c1 c2 "new_objects sc2 h2"] by (simp_all add: h3_def)
  have fin: "data_objects (snd (final (organize_new_objects sc h))) = data_objects h3"
    unfolding run h3_def
    by (cases "organize_each c1 c2 (new_objects sc2 h2) h2")
      (auto simp: rebuild_tracked_ids_def)
  have "data_objects h3 ! q = data_objects h ! q" if "q \<in> TRACKED_OBJECT_IDS h" for q
    using that other objs ids by (simp add: new_objects_def)
  moreover have "length (data_objects h3) = length (data_objects h)"
    using only_objects_fields(12) [OF each] objs by simp
  moreover have "\<exists>sc' h'. organize_new_objects sc h = Inr (sc', h')" if "\<forall>p. \<not> name_raises h p"
    using that ret nr run by auto
  ultimately show ?thesis
    unfolding fin by blast
qed

definition tracked_host :: host where
  "tracked_host = demo_host\<lparr>TRACKED_OBJECT_IDS := {0, 1}\<rparr>"

theorem organize_new_objects_keeps_tracked_witness:
  "length (data_objects (snd (final (organize_new_objects demo_scene tracked_host)))) = 4 \<and>
   data_objects (snd (final (organize_new_objects demo_scene tracked_host))) ! 0 =
     \<lparr>otype = ''CAMERA'', oname = ascii ''Zoom'', users_collection = [Coll 0]\<rparr> \<and>
   data_objects (snd (final (organize_new_objects demo_scene tracked_host))) ! 1 =
     \<lparr>otype = ''LIGHT'', oname = ascii ''Key'', users_collection = [Master 0]\<rparr> \<and>
   (\<exists>sc' h'. organize_new_objects demo_scene tracked_host = Inr (sc', h'))"
  using organize_new_objects_keeps_tracked [of demo_scene tracked_host]
  by (auto simp: tracked_host_def demo_host_def)
section \<open>Finding or creating a collection\<close>

lemma find_index_Some:
  "find P [0..<n] = Some k \<longleftrightarrow> k < n \<and> P k \<and> (\<forall>j < k. \<not> P j)"
proof -
  have "find P [0..<n] = Some k \<longleftrightarrow>
      (\<exists>i < length [0..<n]. P ([0..<n] ! i) \<and> k = [0..<n] ! i \<and> (\<forall>j < i. \<not> P ([0..<n] ! j)))"
    by (rule find_Some_iff)
  also have "\<dots> \<longleftrightarrow> k < n \<and> P k \<and> (\<forall>j < k. \<not> P j)"
    by auto
  finally show ?thesis .
qed

lemma collections_get_Some:
  "collections_get name h = Some c \<longleftrightarrow>
     (\<exists>k. c = Coll k \<and> k < length (data_collections h) \<and>
          cname (data_collections h ! k) = name \<and>
          (\<forall>j < k. cname (data_collections h ! j) \<noteq> name))"
  by (auto simp: collections_get_def find_index_Some)

lemma collections_get_None:
  "collections_get name h = None \<longleftrightarrow>
     (\<forall>k < length (data_collections h). cname (data_collections h ! k) \<noteq> name)"
  by (auto simp: collections_get_def find_None_iff)

text \<open>
  The collection returned is the first one of that name in \<open>bpy.data.collections\<close>
  afterwards; at most one collection is appended, at most one child is linked to the
  scene's root, and nothing else changes.
\<close>

lemma find_or_create_collection_result:
  assumes "find_or_create_collection name sc h = Inr (c, sc', h')"
  shows "collections_get name h' = Some c"
    and "coll_name h' c = Some name"
    and "data_collections h' = data_collections h \<or>
         data_collections h' = data_collections h @ [\<lparr>cname = name, children = []\<rparr>]"
    and "h' = h\<lparr>data_collections := data_collections h'\<rparr>"
    and "sc' = sc\<lparr>root_children := root_children sc'\<rparr>"
    and "root_children sc' = root_children sc \<or> root_children sc' = root_children sc @ [c]"
    and "Some name \<in> Some ` set (children_keys sc' h') \<or>
         children_link_raises h (scene_collection sc) c"
proof -
  define g where "g = (case collections_get name h of None \<Rightarrow> collections_new name h | Some c \<Rightarrow> (c, h))"
  have g: "fst g = c \<and> snd g = h'"
    using assms
    by (auto simp: find_or_create_collection_def g_def bind_exn_def except_RuntimeError_pass_def
        children_link_def Let_def split: prod.splits if_splits)
  have get: "collections_get name h' = Some c"
  proof (cases "collections_get name h")
    case None
    then have "c = Coll (length (data_collections h))"
      and "data_collections h' = data_collections h @ [\<lparr>cname = name, children = []\<rparr>]"
      using g by (auto simp: g_def collections_new_def)
    then show ?thesis
      using None by (auto simp: collections_get_Some collections_get_None nth_append)
  next
    case (Some c0)
    then show ?thesis
      using g by (simp add: g_def)
  qed
  then show "collections_get name h' = Some c" .
  from get show nm: "coll_name h' c = Some name"
    by (auto simp: collections_get_Some)
  show "data_collections h' = data_collections h \<or>
         data_collections h' = data_collections h @ [\<lparr>cname = name, children = []\<rparr>]"
    using g by (auto simp: g_def collections_new_def split: option.splits)
  show "h' = h\<lparr>data_collections := data_collections h'\<rparr>"
    using g by (auto simp: g_def collections_new_def split: option.splits)
  show "sc' = sc\<lparr>root_children := root_children sc'\<rparr>"
    using assms
    by (auto simp: find_or_create_collection_def bind_exn_def except_RuntimeError_pass_def
        children_link_def Let_def split: prod.splits if_splits)
  show "root_children sc' = root_children sc \<or> root_children sc' = root_children sc @ [c]"
    using assms
    by (auto simp: find_or_create_collection_def bind_exn_def except_RuntimeError_pass_def
        children_link_def Let_def split: prod.splits if_splits)
  have raises: "children_link_raises h' = children_link_raises h"
    using g by (auto simp: g_def collections_new_def split: option.splits)
  show "Some name \<in> Some ` set (children_keys sc' h') \<or>
         children_link_raises h (scene_collection sc) c"
  proof (cases "coll_name h' c \<in> Some ` set (children_keys sc h')")
    case True
    then have "sc' = sc"
      using assms g
      by (auto simp: find_or_create_collection_def g_def Let_def split: prod.splits)
    with True nm show ?thesis by simp
  next
    case False
    show ?thesis
    proof (cases "children_link_raises h (scene_collection sc) c")
      case True
      then show ?thesis by simp
    next
      case nr: False
      have "sc' = sc\<lparr>root_children := root_children sc @ [c]\<rparr>"
        using assms g False nr raises
        by (auto simp: find_or_create_collection_def g_def Let_def bind_exn_def
            except_RuntimeError_pass_def children_link_def split: prod.splits)
      then have "name \<in> set (children_keys sc' h')"
        using nm by (simp add: children_keys_def map_filter_def)
      then show ?thesis by simp
    qed
  qed
qed

text \<open>Calling it again later, when nothing was removed, changes nothing.\<close>

lemma find_or_create_collection_again:
  assumes "collections_get name h = Some c"
    and "Some name \<in> Some ` set (children_keys sc h) \<or>
         children_link_raises h (scene_collection sc) c"
  shows "find_or_create_collection name sc h = Inr (c, sc, h)"
proof -
  have "coll_name h c = Some name"
    using assms(1) by (auto simp: collections_get_Some)
  then show ?thesis
    using assms
    by (auto simp: find_or_create_collection_def Let_def bind_exn_def
        except_RuntimeError_pass_def children_link_def)
qed

lemma coll_name_append:
  "coll_name h c = Some name \<Longrightarrow>
   coll_name (h\<lparr>data_collections := data_collections h @ cs\<rparr>) c = Some name"
  by (cases c) (auto simp: nth_append split: if_splits)

lemma children_keys_mono:
  assumes "data_collections h' = data_collections h @ cs"
    and "set (root_children sc) \<subseteq> set (root_children sc')"
  shows "set (children_keys sc h) \<subseteq> set (children_keys sc' h')"
proof
  fix name
  assume "name \<in> set (children_keys sc h)"
  then obtain c where c: "c \<in> set (root_children sc)" "coll_name h c = Some name"
    by (auto simp: children_keys_def map_filter_def split: option.splits)
  have "coll_name h' c = Some name"
    using c(2) assms(1) by (cases c) (auto simp: nth_append split: if_splits)
  with c assms(2) show "name \<in> set (children_keys sc' h')"
    by (force simp: children_keys_def map_filter_def)
qed

lemma collections_get_append:
  "collections_get name h = Some c \<Longrightarrow> data_collections h' = data_collections h @ cs \<Longrightarrow>
   collections_get name h' = Some c"
  by (auto simp: collections_get_Some nth_append)
section \<open>Moving the scene's objects\<close>

text \<open>The collection an object of the given type is moved to, if any.\<close>

definition target_of :: "coll_ref \<Rightarrow> coll_ref \<Rightarrow> string \<Rightarrow> coll_ref option" where
  "target_of cameras_col lights_col t =
     (if t = ''CAMERA'' then Some cameras_col
      else if t = ''LIGHT'' then Some lights_col
      else None)"

definition placed :: "coll_ref \<Rightarrow> coll_ref \<Rightarrow> host \<Rightarrow> obj_ref \<Rightarrow> object" where
  "placed cameras_col lights_col h q =
     (case target_of cameras_col lights_col (otype (data_objects h ! q)) of
        None \<Rightarrow> data_objects h ! q
      | Some target \<Rightarrow> (data_objects h ! q)\<lparr>users_collection := moved_users h q target\<rparr>)"

lemma moved_users_again:
  assumes "users_of h' p = moved_users h p target"
    and "link_raises h' = link_raises h" and "unlink_raises h' = unlink_raises h"
  shows "moved_users h' p target = moved_users h p target"
proof -
  have "target \<in> set (moved_users h p target) \<or> link_raises h target p"
    by (auto simp: moved_users_def)
  then show ?thesis
    using assms by (auto simp: moved_users_def)
qed

lemma moved_users_cong:
  assumes "users_of h' p = users_of h p"
    and "link_raises h' = link_raises h" and "unlink_raises h' = unlink_raises h"
  shows "moved_users h' p target = moved_users h p target"
  using assms by (simp add: moved_users_def)

lemma host_objects_eq:
  assumes "length (data_objects h') = length (data_objects h)"
    and "\<And>q. q < length (data_objects h) \<Longrightarrow> data_objects h' ! q = f q"
    and "h' = h\<lparr>data_objects := data_objects h'\<rparr>"
  shows "h' = h\<lparr>data_objects := map f [0..<length (data_objects h)]\<rparr>"
proof -
  have "data_objects h' = map f [0..<length (data_objects h)]"
    using assms(1,2) by (intro nth_equalityI) simp_all
  with assms(3) show ?thesis by simp
qed

lemma move_each_eq:
  "move_each cameras_col lights_col ps h =
     Inr (h\<lparr>data_objects :=
            map (\<lambda>q. if q \<in> set ps then placed cameras_col lights_col h q else data_objects h ! q)
              [0..<length (data_objects h)]\<rparr>)"
proof (induction ps arbitrary: h)
  case Nil
  then show ?case by (simp add: map_nth)
next
  case (Cons p ps)
  define h1 where "h1 =
     (case target_of cameras_col lights_col (otype (data_objects h ! p)) of
        None \<Rightarrow> h
      | Some target \<Rightarrow> set_users p (moved_users h p target) h)"
  have step: "move_each cameras_col lights_col (p # ps) h = move_each cameras_col lights_col ps h1"
    by (simp add: h1_def target_of_def move_object_eq bind_exn_def)
  have len: "length (data_objects h1) = length (data_objects h)"
    and lr: "link_raises h1 = link_raises h" and ur: "unlink_raises h1 = unlink_raises h"
    and rec: "h1 = h\<lparr>data_objects := data_objects h1\<rparr>"
    by (simp_all add: h1_def set_users_def split: option.splits)
  have at_p: "data_objects h1 ! p = placed cameras_col lights_col h p" if "p < length (data_objects h)"
    using that by (simp add: h1_def placed_def set_users_nth split: option.splits)
  have other: "data_objects h1 ! q = data_objects h ! q" if "q \<noteq> p" for q
    using that by (simp add: h1_def set_users_def split: option.splits)
  have placed_p: "placed cameras_col lights_col h1 p = placed cameras_col lights_col h p"
    if "p < length (data_objects h)"
  proof (cases "target_of cameras_col lights_col (otype (data_objects h ! p))")
    case None
    then show ?thesis by (simp add: h1_def)
  next
    case (Some target)
    then have h1: "h1 = set_users p (moved_users h p target) h"
      by (simp add: h1_def)
    have "users_of h1 p = moved_users h p target"
      using that by (simp add: h1 users_of_set_users)
    then have "moved_users h1 p target = moved_users h p target"
      using lr ur by (rule moved_users_again)
    then show ?thesis
      using that Some by (simp add: placed_def h1 set_users_nth)
  qed
  have placed_other: "placed cameras_col lights_col h1 q = placed cameras_col lights_col h q"
    if "q \<noteq> p" for q
  proof -
    have "users_of h1 q = users_of h q"
      using that other [of q] len by (simp add: users_of_def)
    then have "moved_users h1 q target = moved_users h q target" for target
      using lr ur by (rule moved_users_cong)
    then show ?thesis
      using that by (simp add: placed_def other split: option.splits)
  qed
  have "(if q \<in> set ps then placed cameras_col lights_col h1 q else data_objects h1 ! q) =
        (if q \<in> set (p # ps) then placed cameras_col lights_col h q else data_objects h ! q)"
    if "q < length (data_objects h)" for q
  proof (cases "q = p")
    case True
    then show ?thesis
      using that at_p placed_p by simp
  next
    case False
    then show ?thesis
      using other [of q] placed_other [of q] by simp
  qed
  then have "map (\<lambda>q. if q \<in> set ps then placed cameras_col lights_col h1 q else data_objects h1 ! q)
          [0..<length (data_objects h)] =
        map (\<lambda>q. if q \<in> set (p # ps) then placed cameras_col lights_col h q else data_objects h ! q)
          [0..<length (data_objects h)]"
    by (intro map_cong) simp_all
  then show ?case
    unfolding step Cons.IH len by (subst rec) simp
qed


section \<open>Decimal numerals\<close>

text \<open>The value of a run of ASCII digits.\<close>

definition decimal_value :: "ustring \<Rightarrow> nat" where
  "decimal_value ds = foldl (\<lambda>a c. 10 * a + (c - 48)) 0 ds"

lemma decimal_value_str_nat:
  "decimal_value (str_nat n) = n"
proof (induction n rule: str_nat.induct)
  case (1 n)
  show ?case
  proof (cases "n < 10")
    case True
    then show ?thesis
      by (simp add: str_nat.simps [of n] decimal_value_def digit_char_def)
  next
    case False
    then have "decimal_value (str_nat (n div 10)) = n div 10"
      using "1.IH" by simp
    with False show ?thesis
      by (simp add: str_nat.simps [of n] decimal_value_def digit_char_def)
  qed
qed

lemma str_nat_inject:
  "str_nat m = str_nat n \<Longrightarrow> m = n"
  by (metis decimal_value_str_nat)

lemma new_name_inject:
  "new_name tn i = new_name tn j \<Longrightarrow> i = j"
  by (simp add: new_name_def str_nat_inject)

lemma str_nat_not_empty:
  "str_nat n \<noteq> []"
  by (simp add: str_nat.simps [of n])

lemma new_names_distinct:
  "distinct (map (new_name tn) [1..<Suc n])"
  by (auto simp: distinct_map inj_on_def dest: new_name_inject simp del: upt_Suc)

section \<open>Renaming all objects of a type\<close>

text \<open>
  The renaming loop as it runs when the host stores every name as given:
  \<open>store_names\<close>. \<open>clash_free tn i ps h\<close> says that it does: when the object at
  position \<open>k\<close> of \<open>ps\<close> is about to be named, no object other than itself and the
  ones renamed before it holds the name \<open>"{tn} {i + k}"\<close>.
\<close>

fun store_names :: "ustring \<Rightarrow> nat \<Rightarrow> obj_ref list \<Rightarrow> host \<Rightarrow> host" where
  "store_names tn i [] h = h"
| "store_names tn i (p # ps) h = store_names tn (Suc i) ps (store_name p (new_name tn i) h)"

definition clash_free :: "ustring \<Rightarrow> nat \<Rightarrow> obj_ref list \<Rightarrow> host \<Rightarrow> bool" where
  "clash_free tn i ps h =
     (\<forall>k \<in> set [0..<length ps]. \<forall>q \<in> set [0..<length (data_objects h)].
        q \<notin> set (take (Suc k) ps) \<longrightarrow> oname (data_objects h ! q) \<noteq> new_name tn (i + k))"

text \<open>
  \<open>renames_cleanly t h\<close>: the pass over the objects of type \<open>t\<close> meets no read-only
  object and no name held by another object.
\<close>

definition renames_cleanly :: "string \<Rightarrow> host \<Rightarrow> bool" where
  "renames_cleanly t h =
     (case type_name t of
        None \<Rightarrow> True
      | Some tn \<Rightarrow>
          (\<forall>p \<in> set (objects_of_type t h). \<not> name_raises h p) \<and>
          clash_free tn 1 (sort_by_lower_name h (objects_of_type t h)) h)"

definition renamed :: "string \<Rightarrow> host \<Rightarrow> host" where
  "renamed t h =
     (case type_name t of
        None \<Rightarrow> h
      | Some tn \<Rightarrow> store_names tn 1 (sort_by_lower_name h (objects_of_type t h)) h)"

lemma clash_freeD:
  "clash_free tn i ps h \<Longrightarrow> k < length ps \<Longrightarrow> q < length (data_objects h) \<Longrightarrow>
   q \<notin> set (take (Suc k) ps) \<Longrightarrow> oname (data_objects h ! q) \<noteq> new_name tn (i + k)"
  by (simp add: clash_free_def)

lemma clash_freeI:
  assumes "\<And>k q. k < length ps \<Longrightarrow> q < length (data_objects h) \<Longrightarrow>
    q \<notin> set (take (Suc k) ps) \<Longrightarrow> oname (data_objects h ! q) \<noteq> new_name tn (i + k)"
  shows "clash_free tn i ps h"
  using assms by (simp add: clash_free_def)

text \<open>No clash arises when no object of the file holds one of the names to assign.\<close>

lemma clash_free_fresh:
  assumes "\<And>k q. k < length ps \<Longrightarrow> q < length (data_objects h) \<Longrightarrow>
    oname (data_objects h ! q) \<noteq> new_name tn (i + k)"
  shows "clash_free tn i ps h"
  using assms by (simp add: clash_free_def)

lemma set_name_free:
  "\<not> name_raises h p \<Longrightarrow> \<not> name_held h p n \<Longrightarrow> set_name p n h = Inr (store_name p n h)"
  by (simp add: set_name_def unique_name_def)

lemma rename_enumerate_plain:
  assumes "distinct ps"
    and "\<forall>p \<in> set ps. p < length (data_objects h) \<and> \<not> name_raises h p"
    and "clash_free tn i ps h"
  shows "rename_enumerate tn i ps h = Inr (store_names tn i ps h)"
  using assms
proof (induction ps arbitrary: i h)
  case Nil
  then show ?case by simp
next
  case (Cons p ps)
  define h1 where "h1 = store_name p (new_name tn i) h"
  have p: "p < length (data_objects h)" "\<not> name_raises h p" "p \<notin> set ps"
    using Cons.prems by simp_all
  have "oname (data_objects h ! q) \<noteq> new_name tn i" if "q < length (data_objects h)" "q \<noteq> p" for q
    using clash_freeD [OF Cons.prems(3), of 0 q] that by simp
  then have "\<not> name_held h p (new_name tn i)"
    by (auto simp: name_held_def)
  then have s: "set_name p (new_name tn i) h = Inr h1"
    using p(2) by (simp add: set_name_free h1_def)
  have o: "only_objects h h1"
    by (simp add: h1_def)
  have len: "length (data_objects h1) = length (data_objects h)"
    and nr: "name_raises h1 = name_raises h"
    using only_objects_fields [OF o] by simp_all
  have "clash_free tn (Suc i) ps h1"
  proof (rule clash_freeI)
    fix k q
    assume k: "k < length ps" and q: "q < length (data_objects h1)"
      and t: "q \<notin> set (take (Suc k) ps)"
    show "oname (data_objects h1 ! q) \<noteq> new_name tn (Suc i + k)"
    proof (cases "q = p")
      case True
      then have "oname (data_objects h1 ! q) = new_name tn i"
        using p(1) by (simp add: h1_def store_name_nth)
      then show ?thesis
        using new_name_inject [of tn i "Suc i + k"] by auto
    next
      case False
      then have "oname (data_objects h1 ! q) = oname (data_objects h ! q)"
        by (simp add: h1_def store_name_other)
      moreover have "oname (data_objects h ! q) \<noteq> new_name tn (i + Suc k)"
        using clash_freeD [OF Cons.prems(3), of "Suc k" q] k q t False len by simp
      ultimately show ?thesis by simp
    qed
  qed
  moreover have "distinct ps" "\<forall>p \<in> set ps. p < length (data_objects h1) \<and> \<not> name_raises h1 p"
    using Cons.prems by (simp_all add: len nr)
  ultimately have "rename_enumerate tn (Suc i) ps h1 = Inr (store_names tn (Suc i) ps h1)"
    by (intro Cons.IH)
  then show ?case
    by (simp add: s h1_def)
qed

text \<open>On every path the loop changes names only, and of the objects in its list only.\<close>

lemma rename_enumerate_final:
  "only_objects h (final (rename_enumerate tn i ps h)) \<and>
   (\<forall>q. q \<notin> set ps \<longrightarrow>
      data_objects (final (rename_enumerate tn i ps h)) ! q = data_objects h ! q) \<and>
   (\<forall>q. otype (data_objects (final (rename_enumerate tn i ps h)) ! q) = otype (data_objects h ! q)) \<and>
   (\<forall>q. users_of (final (rename_enumerate tn i ps h)) q = users_of h q) \<and>
   ((\<forall>p \<in> set ps. \<not> name_raises h p) \<longrightarrow> (\<exists>h'. rename_enumerate tn i ps h = Inr h')) \<and>
   (\<forall>e h'. rename_enumerate tn i ps h = Inl (e, h') \<longrightarrow>
      e = AttributeError \<and> (\<exists>p \<in> set ps. name_raises h p))"
proof (induction ps arbitrary: i h)
  case Nil
  then show ?case by simp
next
  case (Cons p ps)
  show ?case
  proof (cases rule: set_name_cases [of h p "new_name tn i"])
    case raised
    then show ?thesis by simp
  next
    case stored
    define h1 where "h1 = store_name p (unique_name h p (new_name tn i)) h"
    have step: "rename_enumerate tn i (p # ps) h = rename_enumerate tn (Suc i) ps h1"
      by (simp add: stored h1_def)
    have o: "only_objects h h1"
      by (simp add: h1_def)
    have nr: "name_raises h1 = name_raises h"
      using only_objects_fields [OF o] by simp
    have n: "data_objects h1 ! q = data_objects h ! q" if "q \<noteq> p" for q
      using that by (simp add: h1_def store_name_other)
    have t: "otype (data_objects h1 ! q) = otype (data_objects h ! q)"
      and u: "users_of h1 q = users_of h q" for q
      by (simp_all add: h1_def)
    from Cons.IH [where i = "Suc i" and h = h1] show ?thesis
      unfolding step using o n t u stored(1) by (auto simp: nr intro: only_objects_trans)
  qed
qed

lemma only_objects_store_names [simp]:
  "only_objects h (store_names tn i ps h)"
proof (induction ps arbitrary: i h)
  case Nil
  then show ?case by simp
next
  case (Cons p ps)
  have "only_objects (store_name p (new_name tn i) h)
      (store_names tn (Suc i) ps (store_name p (new_name tn i) h))"
    by (rule Cons.IH)
  then show ?case
    using only_objects_trans [OF only_objects_store_name] by simp
qed

lemma store_names_other:
  "q \<notin> set ps \<Longrightarrow> data_objects (store_names tn i ps h) ! q = data_objects h ! q"
  by (induction ps arbitrary: i h) (auto simp: store_name_other)

lemma store_names_length [simp]:
  "length (data_objects (store_names tn i ps h)) = length (data_objects h)"
  using only_objects_fields(12) [OF only_objects_store_names] .

lemma store_names_nth:
  assumes "distinct ps" and "\<forall>p \<in> set ps. p < length (data_objects h)" and "k < length ps"
  shows "data_objects (store_names tn i ps h) ! (ps ! k) =
           (data_objects h ! (ps ! k))\<lparr>oname := new_name tn (i + k)\<rparr>"
  using assms
proof (induction ps arbitrary: i h k)
  case Nil
  then show ?case by simp
next
  case (Cons p ps)
  show ?case
  proof (cases k)
    case 0
    then show ?thesis
      using Cons.prems by (simp add: store_names_other store_name_nth)
  next
    case (Suc j)
    have "data_objects (store_names tn (Suc i) ps (store_name p (new_name tn i) h)) ! (ps ! j) =
          (data_objects (store_name p (new_name tn i) h) ! (ps ! j))\<lparr>oname := new_name tn (Suc i + j)\<rparr>"
      using Cons.prems Suc
      by (intro Cons.IH) (auto simp: only_objects_fields(12) [OF only_objects_store_name])
    moreover have "ps ! j \<noteq> p" "ps ! j < length (data_objects h)"
      using Cons.prems Suc by auto
    ultimately show ?thesis
      using Suc by (simp add: store_name_nth)
  qed
qed

lemma store_names_keeps [simp]:
  "otype (data_objects (store_names tn i ps h) ! q) = otype (data_objects h ! q)"
  "users_of (store_names tn i ps h) q = users_of h q"
  by (induction ps arbitrary: i h; simp)+

lemma objects_of_type_props:
  "distinct (objects_of_type t h)"
  "p \<in> set (objects_of_type t h) \<longleftrightarrow> p < length (data_objects h) \<and> otype (data_objects h ! p) = t"
  by (auto simp: objects_of_type_def)

lemma sort_by_lower_name_props:
  "distinct (sort_by_lower_name h (objects_of_type t h))"
  "set (sort_by_lower_name h (objects_of_type t h)) = set (objects_of_type t h)"
  "length (sort_by_lower_name h (objects_of_type t h)) = length (objects_of_type t h)"
  "mset (sort_by_lower_name h (objects_of_type t h)) = mset (objects_of_type t h)"
  by (simp_all add: sort_by_lower_name_def objects_of_type_props)

lemma rename_objects_sequentially_of_type_plain:
  assumes "renames_cleanly t h"
  shows "rename_objects_sequentially_of_type t h = Inr (renamed t h)"
proof (cases "type_name t")
  case None
  then show ?thesis
    by (simp add: rename_objects_sequentially_of_type_def renamed_def)
next
  case (Some tn)
  have "rename_enumerate tn 1 (sort_by_lower_name h (objects_of_type t h)) h =
      Inr (store_names tn 1 (sort_by_lower_name h (objects_of_type t h)) h)"
    using assms Some
    by (intro rename_enumerate_plain)
      (simp_all add: renames_cleanly_def sort_by_lower_name_props objects_of_type_props)
  then show ?thesis
    by (simp add: rename_objects_sequentially_of_type_def renamed_def Some)
qed

lemma rename_objects_sequentially_of_type_final:
  "only_objects h (final (rename_objects_sequentially_of_type t h))"
  "otype (data_objects (final (rename_objects_sequentially_of_type t h)) ! q) =
     otype (data_objects h ! q)"
  "users_of (final (rename_objects_sequentially_of_type t h)) q = users_of h q"
  "otype (data_objects h ! q) \<noteq> t \<Longrightarrow>
   data_objects (final (rename_objects_sequentially_of_type t h)) ! q = data_objects h ! q"
  "\<forall>p \<in> set (objects_of_type t h). \<not> name_raises h p \<Longrightarrow>
   \<exists>h'. rename_objects_sequentially_of_type t h = Inr h'"
  "rename_objects_sequentially_of_type t h = Inl (e, h') \<Longrightarrow>
   e = AttributeError \<and> (\<exists>p \<in> set (objects_of_type t h). name_raises h p)"
proof -
  note r = rename_enumerate_final [of h _ 1 "sort_by_lower_name h (objects_of_type t h)"]
  show "only_objects h (final (rename_objects_sequentially_of_type t h))"
    using r by (simp add: rename_objects_sequentially_of_type_def split: option.splits)
  show "otype (data_objects (final (rename_objects_sequentially_of_type t h)) ! q) =
     otype (data_objects h ! q)"
    using r by (simp add: rename_objects_sequentially_of_type_def split: option.splits)
  show "users_of (final (rename_objects_sequentially_of_type t h)) q = users_of h q"
    using r by (simp add: rename_objects_sequentially_of_type_def split: option.splits)
  show "data_objects (final (rename_objects_sequentially_of_type t h)) ! q = data_objects h ! q"
    if "otype (data_objects h ! q) \<noteq> t"
  proof -
    have "q \<notin> set (sort_by_lower_name h (objects_of_type t h))"
      using that by (simp add: sort_by_lower_name_props objects_of_type_props)
    then show ?thesis
      using r by (simp add: rename_objects_sequentially_of_type_def split: option.splits)
  qed
  show "\<exists>h'. rename_objects_sequentially_of_type t h = Inr h'"
    if "\<forall>p \<in> set (objects_of_type t h). \<not> name_raises h p"
    using r that
    by (simp add: rename_objects_sequentially_of_type_def sort_by_lower_name_props
        split: option.splits)
  show "e = AttributeError \<and> (\<exists>p \<in> set (objects_of_type t h). name_raises h p)"
    if "rename_objects_sequentially_of_type t h = Inl (e, h')"
  proof (cases "type_name t")
    case None
    then show ?thesis
      using that by (simp add: rename_objects_sequentially_of_type_def)
  next
    case (Some tn)
    then have "rename_enumerate tn 1 (sort_by_lower_name h (objects_of_type t h)) h = Inl (e, h')"
      using that by (simp add: rename_objects_sequentially_of_type_def)
    then show ?thesis
      using rename_enumerate_final [of h tn 1 "sort_by_lower_name h (objects_of_type t h)"]
      by (simp add: sort_by_lower_name_props)
  qed
qed

text \<open>
  The clean pass, said without the sorting function: the objects of the type are put in
  a sequence that is a rearrangement of them, ascending in the lower-cased prior name,
  with objects of equal key in their order in \<open>bpy.data.objects\<close>; the object at
  position \<open>i\<close> of the sequence (from 0) is named with index \<open>i + 1\<close>.
\<close>

lemma renamed_sorted:
  assumes "type_name t = Some tn"
  shows "\<exists>objs.
           objs = sort_by_lower_name h (objects_of_type t h) \<and>
           mset objs = mset (objects_of_type t h) \<and>
           sorted (map (\<lambda>p. str_lower h (oname (data_objects h ! p))) objs) \<and>
           (\<forall>key. filter (\<lambda>p. str_lower h (oname (data_objects h ! p)) = key) objs =
                  filter (\<lambda>p. str_lower h (oname (data_objects h ! p)) = key) (objects_of_type t h)) \<and>
           (\<forall>i < length objs.
              data_objects (renamed t h) ! (objs ! i) =
                (data_objects h ! (objs ! i))\<lparr>oname := new_name tn (Suc i)\<rparr>) \<and>
           (\<forall>q. q \<notin> set objs \<longrightarrow> data_objects (renamed t h) ! q = data_objects h ! q)"
proof -
  define objs where "objs = sort_by_lower_name h (objects_of_type t h)"
  have m: "mset objs = mset (objects_of_type t h)"
    by (simp add: objs_def sort_by_lower_name_props)
  have s: "set objs = set (objects_of_type t h)" and d: "distinct objs"
    by (simp_all add: objs_def sort_by_lower_name_props)
  have r: "renamed t h = store_names tn 1 objs h"
    using assms by (simp add: renamed_def objs_def)
  have "sorted (map (\<lambda>p. str_lower h (oname (data_objects h ! p))) objs)"
    by (simp add: objs_def sort_by_lower_name_def)
  moreover have "filter (\<lambda>p. str_lower h (oname (data_objects h ! p)) = key) objs =
      filter (\<lambda>p. str_lower h (oname (data_objects h ! p)) = key) (objects_of_type t h)" for key
    unfolding objs_def sort_by_lower_name_def by (rule sort_key_stable)
  moreover have "data_objects (renamed t h) ! (objs ! i) =
      (data_objects h ! (objs ! i))\<lparr>oname := new_name tn (Suc i)\<rparr>" if "i < length objs" for i
    using store_names_nth [of objs h i tn 1] d s that
    by (simp add: r objects_of_type_props)
  moreover have "data_objects (renamed t h) ! q = data_objects h ! q"
    if "q \<notin> set objs" for q
    using that by (simp add: r store_names_other)
  ultimately show ?thesis
    using m objs_def by blast
qed

lemma only_objects_renamed [simp]:
  "only_objects h (renamed t h)"
  by (simp add: renamed_def split: option.splits)

lemma renamed_keeps [simp]:
  "otype (data_objects (renamed t h) ! q) = otype (data_objects h ! q)"
  "users_of (renamed t h) q = users_of h q"
  "length (data_objects (renamed t h)) = length (data_objects h)"
  by (simp_all add: renamed_def split: option.splits)

text \<open>The new names of the objects of the type are the \<open>N\<close> names, each once.\<close>

lemma renamed_names:
  assumes "type_name t = Some tn"
  shows "mset (map (\<lambda>p. oname (data_objects (renamed t h) ! p)) (objects_of_type t h)) =
         mset (map (new_name tn) [1..<Suc (length (objects_of_type t h))])"
proof -
  obtain objs where m: "mset objs = mset (objects_of_type t h)"
    and n: "\<forall>i < length objs.
              data_objects (renamed t h) ! (objs ! i) =
                (data_objects h ! (objs ! i))\<lparr>oname := new_name tn (Suc i)\<rparr>"
    using renamed_sorted [OF assms, of h] by blast
  have len: "length objs = length (objects_of_type t h)"
    using m by (metis size_mset)
  have "map (\<lambda>p. oname (data_objects (renamed t h) ! p)) objs =
        map (new_name tn) [1..<Suc (length objs)]"
    using n by (auto intro!: nth_equalityI simp: nth_upt simp del: upt_Suc)
  moreover have "mset (map (\<lambda>p. oname (data_objects (renamed t h) ! p)) objs) =
      mset (map (\<lambda>p. oname (data_objects (renamed t h) ! p)) (objects_of_type t h))"
    using m by (metis mset_map)
  ultimately show ?thesis
    using len by simp
qed

text \<open>
  C4. For a type argument that is not tracked, \<open>rename_objects_sequentially_of_type\<close>
  changes nothing. For a tracked type with \<open>N\<close> objects, when the pass is clean (no
  object of the type is read-only and no name it assigns is held at that moment by
  another object), it returns with the objects of the type named \<open>"{TypeName} 1"\<close> to
  \<open>"{TypeName} N"\<close>, each name once, in the order of their prior names sorted by their
  lower-cased form (objects of equal key in their order in \<open>bpy.data.objects\<close>), and
  with nothing else changed. On every path it changes names only, and of objects of the
  type only; it returns when no object of the type is read-only, and otherwise it raises
  nothing but the host's \<open>AttributeError\<close>. When a name it assigns is held by another
  object the host stores another name; see the example after the theorem.
\<close>

theorem rename_objects_sequentially_of_type_spec:
  "(type_name t = None \<longrightarrow> rename_objects_sequentially_of_type t h = Inr h) \<and>
   (type_name t = Some tn \<and> renames_cleanly t h \<longrightarrow>
      (\<exists>objs h'.
         rename_objects_sequentially_of_type t h = Inr h' \<and>
         mset objs = mset (objects_of_type t h) \<and>
         sorted (map (\<lambda>p. str_lower h (oname (data_objects h ! p))) objs) \<and>
         (\<forall>key. filter (\<lambda>p. str_lower h (oname (data_objects h ! p)) = key) objs =
                filter (\<lambda>p. str_lower h (oname (data_objects h ! p)) = key) (objects_of_type t h)) \<and>
         (\<forall>i < length objs.
            data_objects h' ! (objs ! i) =
              (data_objects h ! (objs ! i))\<lparr>oname := new_name tn (Suc i)\<rparr>) \<and>
         (\<forall>q. q \<notin> set objs \<longrightarrow> data_objects h' ! q = data_objects h ! q) \<and>
         mset (map (\<lambda>p. oname (data_objects h' ! p)) (objects_of_type t h)) =
           mset (map (new_name tn) [1..<Suc (length (objects_of_type t h))]) \<and>
         distinct (map (new_name tn) [1..<Suc (length (objects_of_type t h))]))) \<and>
   only_objects h (final (rename_objects_sequentially_of_type t h)) \<and>
   (\<forall>q. otype (data_objects (final (rename_objects_sequentially_of_type t h)) ! q) =
          otype (data_objects h ! q) \<and>
        users_of (final (rename_objects_sequentially_of_type t h)) q = users_of h q \<and>
        (otype (data_objects h ! q) \<noteq> t \<longrightarrow>
           data_objects (final (rename_objects_sequentially_of_type t h)) ! q =
             data_objects h ! q)) \<and>
   ((\<forall>p \<in> set (objects_of_type t h). \<not> name_raises h p) \<longrightarrow>
      (\<exists>h'. rename_objects_sequentially_of_type t h = Inr h')) \<and>
   (\<forall>e h'. rename_objects_sequentially_of_type t h = Inl (e, h') \<longrightarrow> e = AttributeError)"
proof -
  have a: "rename_objects_sequentially_of_type t h = Inr h" if "type_name t = None"
    using that by (simp add: rename_objects_sequentially_of_type_def)
  have b: "\<exists>objs h'.
         rename_objects_sequentially_of_type t h = Inr h' \<and>
         mset objs = mset (objects_of_type t h) \<and>
         sorted (map (\<lambda>p. str_lower h (oname (data_objects h ! p))) objs) \<and>
         (\<forall>key. filter (\<lambda>p. str_lower h (oname (data_objects h ! p)) = key) objs =
                filter (\<lambda>p. str_lower h (oname (data_objects h ! p)) = key) (objects_of_type t h)) \<and>
         (\<forall>i < length objs.
            data_objects h' ! (objs ! i) =
              (data_objects h ! (objs ! i))\<lparr>oname := new_name tn (Suc i)\<rparr>) \<and>
         (\<forall>q. q \<notin> set objs \<longrightarrow> data_objects h' ! q = data_objects h ! q) \<and>
         mset (map (\<lambda>p. oname (data_objects h' ! p)) (objects_of_type t h)) =
           mset (map (new_name tn) [1..<Suc (length (objects_of_type t h))]) \<and>
         distinct (map (new_name tn) [1..<Suc (length (objects_of_type t h))])"
    if "type_name t = Some tn" "renames_cleanly t h"
    using rename_objects_sequentially_of_type_plain [OF that(2)]
      renamed_sorted [OF that(1), of h] renamed_names [OF that(1), of h]
      new_names_distinct [of tn "length (objects_of_type t h)"]
    by blast
  note f = rename_objects_sequentially_of_type_final [where h = h and t = t]
  from a b f(1) f(2) f(3) f(4) f(5) f(6) show ?thesis
    by blast
qed

lemma demo_renames_cleanly:
  "renames_cleanly ''CAMERA'' demo_host"
  by code_simp

lemma demo_rename_cameras:
  "map oname (data_objects (final (rename_objects_sequentially_of_type ''CAMERA'' demo_host))) =
     [ascii ''Camera 2'', ascii ''Key'', ascii ''Camera 1'', ascii ''Cube'']"
  by code_simp

theorem rename_objects_sequentially_of_type_spec_witness:
  "type_name ''CAMERA'' = Some (ascii ''Camera'') \<and>
   renames_cleanly ''CAMERA'' demo_host \<and>
   objects_of_type ''CAMERA'' demo_host = [0, 2] \<and>
   (\<exists>objs h'.
      rename_objects_sequentially_of_type ''CAMERA'' demo_host = Inr h' \<and>
      mset objs = mset (objects_of_type ''CAMERA'' demo_host) \<and>
      sorted (map (\<lambda>p. str_lower demo_host (oname (data_objects demo_host ! p))) objs) \<and>
      (\<forall>i < length objs.
         data_objects h' ! (objs ! i) =
           (data_objects demo_host ! (objs ! i))\<lparr>oname := new_name (ascii ''Camera'') (Suc i)\<rparr>)) \<and>
   map oname (data_objects (final (rename_objects_sequentially_of_type ''CAMERA'' demo_host))) =
     [ascii ''Camera 2'', ascii ''Key'', ascii ''Camera 1'', ascii ''Cube''] \<and>
   type_name ''MESH'' = None \<and>
   rename_objects_sequentially_of_type ''MESH'' demo_host = Inr demo_host"
proof -
  have t: "type_name ''CAMERA'' = Some (ascii ''Camera'')" "type_name ''MESH'' = None"
    by (simp_all add: type_name_def)
  have o: "objects_of_type ''CAMERA'' demo_host = [0, 2]"
    by code_simp
  note c = rename_objects_sequentially_of_type_spec [of "''CAMERA''" demo_host "ascii ''Camera''"]
  note m = rename_objects_sequentially_of_type_spec [of "''MESH''" demo_host "ascii ''Camera''"]
  have "\<exists>objs h'.
      rename_objects_sequentially_of_type ''CAMERA'' demo_host = Inr h' \<and>
      mset objs = mset (objects_of_type ''CAMERA'' demo_host) \<and>
      sorted (map (\<lambda>p. str_lower demo_host (oname (data_objects demo_host ! p))) objs) \<and>
      (\<forall>i < length objs.
         data_objects h' ! (objs ! i) =
           (data_objects demo_host ! (objs ! i))\<lparr>oname := new_name (ascii ''Camera'') (Suc i)\<rparr>)"
    using c [THEN conjunct2, THEN conjunct1] t(1) demo_renames_cleanly by blast
  moreover have "rename_objects_sequentially_of_type ''MESH'' demo_host = Inr demo_host"
    using m [THEN conjunct1] t(2) by blast
  ultimately show ?thesis
    using t o demo_renames_cleanly demo_rename_cameras by blast
qed

text \<open>
  A file with two cameras named \<open>b\<close> and \<open>Camera 1\<close>. The camera \<open>b\<close> sorts first and is
  to be named \<open>Camera 1\<close>, a name the other camera holds at that moment: the host stores
  \<open>Camera 1.001\<close>. The pass returns with the names \<open>Camera 1.001\<close> and \<open>Camera 2\<close>.
\<close>

definition clash_host :: host where
  "clash_host =
     demo_host\<lparr>data_objects :=
       [\<lparr>otype = ''CAMERA'', oname = ascii ''b'', users_collection = [Coll 0]\<rparr>,
        \<lparr>otype = ''CAMERA'', oname = ascii ''Camera 1'', users_collection = [Coll 0]\<rparr>]\<rparr>"

theorem rename_objects_sequentially_of_type_clash:
  "map otype (data_objects clash_host) = [''CAMERA'', ''CAMERA''] \<and>
   map oname (data_objects clash_host) = [ascii ''b'', ascii ''Camera 1''] \<and>
   raised (rename_objects_sequentially_of_type ''CAMERA'' clash_host) = None \<and>
   map oname (data_objects (final (rename_objects_sequentially_of_type ''CAMERA'' clash_host))) =
     [ascii ''Camera 1.001'', ascii ''Camera 2'']"
  by code_simp

section \<open>Renaming one new object\<close>

text \<open>
  What the pattern and \<open>int\<close> read from a name, said without the matching function:
  \<open>name_number h tn name n\<close> holds when \<open>name\<close> is \<open>tn\<close>, a space and a non-empty run
  of at most 4300 decimal digits (of the runtime's table, leading zeros allowed) whose
  value is \<open>n\<close>, optionally followed by one newline that is not itself a digit.
\<close>

definition digits_value :: "host \<Rightarrow> ustring \<Rightarrow> nat" where
  "digits_value h ds = foldl (\<lambda>a c. 10 * a + digit_val h c) 0 ds"

definition name_number :: "host \<Rightarrow> ustring \<Rightarrow> ustring \<Rightarrow> nat \<Rightarrow> bool" where
  "name_number h tn name n =
     (\<exists>ds. ds \<noteq> [] \<and> list_all (is_digit h) ds \<and> length ds \<le> int_max_str_digits \<and>
           (name = tn @ [32] @ ds \<or> name = tn @ [32] @ ds @ [10] \<and> \<not> is_digit h 10) \<and>
           digits_value h ds = n)"

lemma pattern_match_iff:
  "pattern_match h tn name = Some ds \<longleftrightarrow>
     ds \<noteq> [] \<and> list_all (is_digit h) ds \<and>
     (name = tn @ [32] @ ds \<or> name = tn @ [32] @ ds @ [10] \<and> \<not> is_digit h 10)"
proof
  assume m: "pattern_match h tn name = Some ds"
  define rest where "rest = drop (length (tn @ [32])) name"
  from m have pre: "take (length (tn @ [32])) name = tn @ [32]"
    and ds: "ds = takeWhile (is_digit h) rest" "ds \<noteq> []"
    and tl: "dropWhile (is_digit h) rest = [] \<or> dropWhile (is_digit h) rest = [10]"
    by (auto simp: pattern_match_def Let_def rest_def split: if_splits)
  have "name = (tn @ [32]) @ rest"
    using pre by (metis append_take_drop_id rest_def)
  moreover have r: "rest = ds @ dropWhile (is_digit h) rest"
    by (simp add: ds)
  moreover have "list_all (is_digit h) ds"
    unfolding ds list_all_iff by (auto dest: set_takeWhileD)
  moreover have "\<not> is_digit h 10" if "dropWhile (is_digit h) rest = [10]"
    using hd_dropWhile [of "is_digit h" rest] that by simp
  ultimately show "ds \<noteq> [] \<and> list_all (is_digit h) ds \<and>
     (name = tn @ [32] @ ds \<or> name = tn @ [32] @ ds @ [10] \<and> \<not> is_digit h 10)"
    using ds(2) tl by (metis append.assoc append_Nil2)
next
  assume a: "ds \<noteq> [] \<and> list_all (is_digit h) ds \<and>
     (name = tn @ [32] @ ds \<or> name = tn @ [32] @ ds @ [10] \<and> \<not> is_digit h 10)"
  have all: "\<forall>c \<in> set ds. is_digit h c"
    using a by (simp add: list_all_iff)
  have tw0: "takeWhile (is_digit h) ds = ds" "dropWhile (is_digit h) ds = []"
    using all by simp_all
  have tw1: "takeWhile (is_digit h) (ds @ [10]) = ds" "dropWhile (is_digit h) (ds @ [10]) = [10]"
    if "\<not> is_digit h 10"
    using that all by (simp_all add: takeWhile_append2 dropWhile_append2)
  from a consider "name = (tn @ [32]) @ ds"
    | "name = (tn @ [32]) @ ds @ [10]" "\<not> is_digit h 10"
    by auto
  then show "pattern_match h tn name = Some ds"
  proof cases
    case 1
    then show ?thesis
      using a all by (simp add: pattern_match_def Let_def tw0)
  next
    case 2
    then show ?thesis
      using a all
      by (simp add: pattern_match_def Let_def tw1 del: takeWhile_append dropWhile_append)
  qed
qed

lemma scan_numbers_set:
  "set (scan_numbers h tn t obs numbers) =
     set numbers \<union> {n. \<exists>ob \<in> set obs. otype ob = t \<and> name_number h tn (oname ob) n}"
proof (induction obs arbitrary: numbers)
  case Nil
  then show ?case by simp
next
  case (Cons ob obs)
  have one: "set (case pattern_match h tn (oname ob) of None \<Rightarrow> numbers
        | Some ds \<Rightarrow> (case py_int h ds of None \<Rightarrow> numbers | Some n \<Rightarrow> n # numbers)) =
      set numbers \<union> {n. name_number h tn (oname ob) n}"
  proof (cases "pattern_match h tn (oname ob)")
    case None
    then have "\<not> name_number h tn (oname ob) n" for n
      unfolding name_number_def using pattern_match_iff [of h tn "oname ob"] by force
    with None show ?thesis by simp
  next
    case (Some ds)
    then have ds: "ds \<noteq> []" "list_all (is_digit h) ds"
      "oname ob = tn @ [32] @ ds \<or> oname ob = tn @ [32] @ ds @ [10] \<and> \<not> is_digit h 10"
      using pattern_match_iff [of h tn "oname ob" ds] by simp_all
    have uniq: "ds' = ds" if "pattern_match h tn (oname ob) = Some ds'" for ds'
      using that Some by simp
    have nn: "name_number h tn (oname ob) n \<longleftrightarrow>
        length ds \<le> int_max_str_digits \<and> digits_value h ds = n" for n
    proof
      assume "name_number h tn (oname ob) n"
      then obtain ds' where d: "ds' \<noteq> []" "list_all (is_digit h) ds'"
        "length ds' \<le> int_max_str_digits"
        "oname ob = tn @ [32] @ ds' \<or> oname ob = tn @ [32] @ ds' @ [10] \<and> \<not> is_digit h 10"
        "digits_value h ds' = n"
        unfolding name_number_def by blast
      then have "pattern_match h tn (oname ob) = Some ds'"
        using pattern_match_iff [of h tn "oname ob" ds'] by simp
      then have "ds' = ds" by (rule uniq)
      with d show "length ds \<le> int_max_str_digits \<and> digits_value h ds = n" by simp
    next
      assume "length ds \<le> int_max_str_digits \<and> digits_value h ds = n"
      then show "name_number h tn (oname ob) n"
        unfolding name_number_def using ds by blast
    qed
    show ?thesis
      using Some nn by (auto simp: py_int_def digits_value_def)
  qed
  show ?case
  proof (cases "otype ob = t")
    case True
    then show ?thesis
      using one by (auto simp: Cons.IH)
  next
    case False
    then show ?thesis
      by (auto simp: Cons.IH)
  qed
qed

lemma first_free_least:
  "first_free n numbers = (LEAST k. n \<le> k \<and> k \<notin> set numbers)"
proof (induction n numbers rule: first_free.induct)
  case (1 n numbers)
  show ?case
  proof (cases "n \<in> set numbers")
    case False
    then have "(LEAST k. n \<le> k \<and> k \<notin> set numbers) = n"
      by (intro Least_equality) auto
    with False show ?thesis
      by (simp add: first_free.simps [of n])
  next
    case True
    have "(n \<le> k \<and> k \<notin> set numbers) = (n + 1 \<le> k \<and> k \<notin> set numbers)" for k
      using True by (cases "k = n") auto
    then show ?thesis
      using True "1.IH" by (simp add: first_free.simps [of n])
  qed
qed

text \<open>
  C3, as amended. For an object of a tracked type, \<open>rename_object_sequentially\<close>
  assigns the name \<open>"{TypeName} k"\<close> through the host's setter, where \<open>k\<close> is the lowest
  positive integer that is not the number read from the name of an object of the same
  type in \<open>bpy.data.objects\<close> (the object itself included): a name counts when it is
  the type name, a space and a run of decimal digits, leading zeros allowed, with an
  optional final newline, and its number is the value of the run. The object then
  carries exactly that name when it is not read-only and no other object of the file,
  of whatever type, holds the name; when another object holds it, the host stores the
  name it makes unique; when the object is read-only, the assignment raises
  \<open>AttributeError\<close> and nothing changes. In no case does anything but this one name
  change.
\<close>

theorem rename_object_sequentially_lowest_unused:
  assumes "p < length (data_objects h)"
    and "type_name (otype (data_objects h ! p)) = Some tn"
    and "k = (LEAST k. 1 \<le> k \<and>
                \<not> (\<exists>ob \<in> set (data_objects h).
                     otype ob = otype (data_objects h ! p) \<and> name_number h tn (oname ob) k))"
  shows "rename_object_sequentially p h = set_name p (new_name tn k) h \<and>
         (\<not> name_raises h p \<and> \<not> name_held h p (new_name tn k) \<longrightarrow>
            rename_object_sequentially p h = Inr (store_name p (new_name tn k) h)) \<and>
         (\<not> name_raises h p \<longrightarrow>
            rename_object_sequentially p h =
              Inr (store_name p (unique_name h p (new_name tn k)) h)) \<and>
         (name_raises h p \<longrightarrow> rename_object_sequentially p h = Inl (AttributeError, h)) \<and>
         (\<forall>q. q \<noteq> p \<longrightarrow>
            data_objects (final (rename_object_sequentially p h)) ! q = data_objects h ! q) \<and>
         otype (data_objects (final (rename_object_sequentially p h)) ! p) =
           otype (data_objects h ! p) \<and>
         users_of (final (rename_object_sequentially p h)) p = users_of h p \<and>
         only_objects h (final (rename_object_sequentially p h))"
proof -
  have r: "rename_object_sequentially p h = set_name p (new_name tn k) h"
    using assms
    by (simp add: rename_object_sequentially_def Let_def first_free_least scan_numbers_set)
  have "set_name p (new_name tn k) h = Inr (store_name p (new_name tn k) h)"
    if "\<not> name_raises h p" "\<not> name_held h p (new_name tn k)"
    using that by (rule set_name_free)
  moreover have "set_name p (new_name tn k) h =
      Inr (store_name p (unique_name h p (new_name tn k)) h)" if "\<not> name_raises h p"
    using that by (simp add: set_name_def)
  moreover have "set_name p (new_name tn k) h = Inl (AttributeError, h)" if "name_raises h p"
    using that by (simp add: set_name_def)
  ultimately show ?thesis
    using rename_object_sequentially_final [where p = p and h = h] unfolding r by blast
qed

text \<open>
  Two cameras, one named \<open>Camera 01\<close> and a new one named \<open>Camera\<close>; and the same file
  with the new camera read-only.
\<close>

definition zeros_host :: host where
  "zeros_host =
     demo_host\<lparr>data_objects :=
       [\<lparr>otype = ''CAMERA'', oname = ascii ''Camera 01'', users_collection = [Coll 0]\<rparr>,
        \<lparr>otype = ''CAMERA'', oname = ascii ''Camera'', users_collection = [Master 0]\<rparr>]\<rparr>"

definition zeros_linked_host :: host where
  "zeros_linked_host = zeros_host\<lparr>name_raises := (\<lambda>p. p = 1)\<rparr>"

lemma zeros_host_numbers:
  "{n. \<exists>ob \<in> set (data_objects zeros_host).
         otype ob = ''CAMERA'' \<and> name_number zeros_host (ascii ''Camera'') (oname ob) n} = {1}"
proof -
  have "scan_numbers zeros_host (ascii ''Camera'') ''CAMERA'' (data_objects zeros_host) [] = [1]"
    by code_simp
  then have "set (scan_numbers zeros_host (ascii ''Camera'') ''CAMERA'' (data_objects zeros_host) []) = {1}"
    by (simp only: list.set)
  then show ?thesis
    by (simp only: scan_numbers_set list.set Un_empty_left)
qed

lemma zeros_linked_host_numbers:
  "{n. \<exists>ob \<in> set (data_objects zeros_linked_host).
         otype ob = ''CAMERA'' \<and> name_number zeros_linked_host (ascii ''Camera'') (oname ob) n} = {1}"
proof -
  have "scan_numbers zeros_linked_host (ascii ''Camera'') ''CAMERA''
      (data_objects zeros_linked_host) [] = [1]"
    by code_simp
  then have "set (scan_numbers zeros_linked_host (ascii ''Camera'') ''CAMERA''
      (data_objects zeros_linked_host) []) = {1}"
    by (simp only: list.set)
  then show ?thesis
    by (simp only: scan_numbers_set list.set Un_empty_left)
qed

lemma least_above_one:
  assumes "{n. P n} = {1::nat}"
  shows "(LEAST k. 1 \<le> k \<and> \<not> P k) = 2"
proof (rule Least_equality)
  have p: "P n \<longleftrightarrow> n = 1" for n
    using arg_cong [OF assms, of "\<lambda>S. n \<in> S"] by simp
  show "1 \<le> (2::nat) \<and> \<not> P 2"
    by (simp add: p)
  fix k :: nat
  assume "1 \<le> k \<and> \<not> P k"
  then have "1 \<le> k" "k \<noteq> 1"
    by (auto simp: p)
  then show "2 \<le> k"
    by simp
qed

lemma zeros_host_facts:
  "1 < length (data_objects zeros_host)"
  "otype (data_objects zeros_host ! 1) = ''CAMERA''"
  "\<not> name_raises zeros_host 1"
  "1 < length (data_objects zeros_linked_host)"
  "otype (data_objects zeros_linked_host ! 1) = ''CAMERA''"
  "name_raises zeros_linked_host 1"
  "type_name ''CAMERA'' = Some (ascii ''Camera'')"
  "new_name (ascii ''Camera'') 2 = ascii ''Camera 2''"
  by code_simp+

lemma zeros_host_free:
  "\<not> name_held zeros_host 1 (ascii ''Camera 2'')"
  by code_simp

theorem rename_object_sequentially_lowest_unused_witness:
  "1 < length (data_objects zeros_host) \<and>
   type_name (otype (data_objects zeros_host ! 1)) = Some (ascii ''Camera'') \<and>
   (LEAST k. 1 \<le> k \<and>
      \<not> (\<exists>ob \<in> set (data_objects zeros_host).
           otype ob = otype (data_objects zeros_host ! 1) \<and>
           name_number zeros_host (ascii ''Camera'') (oname ob) k)) = 2 \<and>
   rename_object_sequentially 1 zeros_host =
     Inr (store_name 1 (ascii ''Camera 2'') zeros_host) \<and>
   rename_object_sequentially 1 zeros_linked_host = Inl (AttributeError, zeros_linked_host)"
proof -
  have l: "(LEAST k. 1 \<le> k \<and>
      \<not> (\<exists>ob \<in> set (data_objects zeros_host).
           otype ob = otype (data_objects zeros_host ! 1) \<and>
           name_number zeros_host (ascii ''Camera'') (oname ob) k)) = 2"
    unfolding zeros_host_facts(2) using zeros_host_numbers by (rule least_above_one)
  have l': "(LEAST k. 1 \<le> k \<and>
      \<not> (\<exists>ob \<in> set (data_objects zeros_linked_host).
           otype ob = otype (data_objects zeros_linked_host ! 1) \<and>
           name_number zeros_linked_host (ascii ''Camera'') (oname ob) k)) = 2"
    unfolding zeros_host_facts(5) using zeros_linked_host_numbers by (rule least_above_one)
  have t: "type_name (otype (data_objects zeros_host ! 1)) = Some (ascii ''Camera'')"
    "type_name (otype (data_objects zeros_linked_host ! 1)) = Some (ascii ''Camera'')"
    unfolding zeros_host_facts(2) zeros_host_facts(5) by (rule zeros_host_facts(7))+
  note a = rename_object_sequentially_lowest_unused
    [OF zeros_host_facts(1) t(1) l [symmetric]]
  note b = rename_object_sequentially_lowest_unused
    [OF zeros_host_facts(4) t(2) l' [symmetric]]
  have "rename_object_sequentially 1 zeros_host =
     Inr (store_name 1 (ascii ''Camera 2'') zeros_host)"
    using a [THEN conjunct2, THEN conjunct1] zeros_host_facts(3) zeros_host_free
    unfolding zeros_host_facts(8) by blast
  moreover have "rename_object_sequentially 1 zeros_linked_host =
      Inl (AttributeError, zeros_linked_host)"
    using b [THEN conjunct2, THEN conjunct2, THEN conjunct2, THEN conjunct1] zeros_host_facts(6)
    by blast
  ultimately show ?thesis
    using zeros_host_facts(1) t(1) l by blast
qed

text \<open>
  The claim as written fails: with a camera named \<open>Camera 01\<close> in the file, a new camera
  named \<open>Camera\<close> becomes \<open>Camera 2\<close>, although no object is named \<open>Camera 1\<close>. And
  with a mesh named \<open>Camera 1\<close> in the file, a new camera becomes \<open>Camera 1.001\<close>.
\<close>

definition mesh_host :: host where
  "mesh_host =
     demo_host\<lparr>data_objects :=
       [\<lparr>otype = ''MESH'', oname = ascii ''Camera 1'', users_collection = [Coll 0]\<rparr>,
        \<lparr>otype = ''CAMERA'', oname = ascii ''Camera'', users_collection = [Master 0]\<rparr>]\<rparr>"

theorem rename_object_sequentially_leading_zeros:
  "map otype (data_objects zeros_host) = [''CAMERA'', ''CAMERA''] \<and>
   map oname (data_objects zeros_host) = [ascii ''Camera 01'', ascii ''Camera''] \<and>
   new_name (ascii ''Camera'') 1 = ascii ''Camera 1'' \<and>
   raised (rename_object_sequentially 1 zeros_host) = None \<and>
   map oname (data_objects (final (rename_object_sequentially 1 zeros_host))) =
     [ascii ''Camera 01'', ascii ''Camera 2''] \<and>
   map otype (data_objects mesh_host) = [''MESH'', ''CAMERA''] \<and>
   map oname (data_objects mesh_host) = [ascii ''Camera 1'', ascii ''Camera''] \<and>
   raised (rename_object_sequentially 1 mesh_host) = None \<and>
   map oname (data_objects (final (rename_object_sequentially 1 mesh_host))) =
     [ascii ''Camera 1'', ascii ''Camera 1.001'']"
  by code_simp

end
